theory Spec2Isabelle
  imports Complex_Main "HOL-Library.Multiset" "HOL-Library.Signed_Division"
begin

section \<open>A discrete-event CPU scheduling simulator (FCFS and Round Robin)\<close>

text \<open>
  The development embeds the C program \<^verbatim>\<open>Scheduling Algorithms/21CS10021_LA3.c\<close>:
  the process table, the event min-heap, the circular ready queue, the dispatcher
  \<^verbatim>\<open>schedule_next\<close> and the main loop of \<^verbatim>\<open>run_scheduler\<close>.

  Conventions of the embedding.
  \<^item> C \<^verbatim>\<open>int\<close> and \<^verbatim>\<open>long\<close> values (times, durations, identifiers, process indices)
    are unbounded integers: the development covers the executions in which no
    timestamp leaves the range of \<^verbatim>\<open>int\<close>.
  \<^item> Sizes, capacities and array positions that the program never makes negative
    (\<^verbatim>\<open>size\<close>, \<^verbatim>\<open>capacity\<close>, \<^verbatim>\<open>front\<close>, \<^verbatim>\<open>count\<close>, the heap index \<^verbatim>\<open>idx\<close>) are natural
    numbers; \<^verbatim>\<open>rear\<close> starts at \<^verbatim>\<open>-1\<close> and is an integer, and \<^verbatim>\<open>%\<close> on it is the
    truncating \<open>smod\<close>.
  \<^item> An array is a list of the array's length, written with \<open>xs[i := v]\<close>. A process
    index \<open>pid\<close> is an integer and is used as \<open>nat pid\<close>; the run invariant below shows
    that every index the run uses is in range.
  \<^item> \<^verbatim>\<open>malloc\<close> returns a block of unspecified contents; here its cells are filled
    with a fixed value. The program writes a cell before it reads it.
  \<^item> \<^verbatim>\<open>double\<close> arithmetic in the printed averages and percentages is exact arithmetic
    on \<open>real\<close>.
  \<^item> Output on \<^verbatim>\<open>stdout\<close> is a list of records, output on \<^verbatim>\<open>stderr\<close> a list of
    strings, and the lines of \<^verbatim>\<open>VERBOSE_PRINT\<close> (a build with \<^verbatim>\<open>VERBOSE\<close>) a separate list.
\<close>

subsection \<open>Data structures\<close>

record PCB =
  pcb_id :: int
  arrival_time :: int
  num_bursts :: int
  cpu_bursts :: "int list"
  io_bursts :: "int list"
  current_burst :: int
  remaining_cpu :: int
  total_cpu_io :: int
  wait_time :: int
  finish_time :: int
  last_ready_time :: int
  start_run_time :: int

datatype EventType = EVT_ARRIVE | EVT_CPU_COMPLETE | EVT_CPU_TIMEOUT

text \<open>The integer values of the enumeration, which \<^verbatim>\<open>compareEvents\<close> compares.\<close>

fun EventType_val :: "EventType \<Rightarrow> int" where
  "EventType_val EVT_ARRIVE = 0"
| "EventType_val EVT_CPU_COMPLETE = 1"
| "EventType_val EVT_CPU_TIMEOUT = 2"

record Event =
  time :: int
  etype :: EventType
  pid :: int

record EventMinHeap =
  heapArray :: "Event list"
  heap_capacity :: nat
  heap_size :: nat

record ReadyQueue =
  rq_data :: "int list"
  rq_capacity :: nat
  rq_front :: nat
  rq_rear :: int
  rq_count :: nat

text \<open>The line \<^verbatim>\<open>print_per_process_metrics\<close> prints when a process exits. The percentage
  is \<open>None\<close> where C divides by a zero running time.\<close>

record exit_record =
  ex_time :: int
  ex_id :: int
  ex_tat :: int
  ex_perc :: "real option"
  ex_wtime :: int

text \<open>The four lines \<^verbatim>\<open>print_aggregate_metrics\<close> prints.\<close>

record aggregate =
  avg_wait :: real
  total_tat :: int
  idle_time :: int
  utilization :: real

text \<open>The lines of \<^verbatim>\<open>VERBOSE_PRINT\<close>, each with the time it starts with.\<close>

datatype vline =
    V_arrival int int
  | V_scheduled int int int
  | V_io_return int int int
  | V_timeout int int
  | V_idle int

text \<open>The variables of \<^verbatim>\<open>run_scheduler\<close>, the two globals and the output streams.\<close>

record sim =
  g_processes :: "PCB list"
  g_numProcs :: int
  eventQ :: EventMinHeap
  readyQ :: ReadyQueue
  current_time :: int
  cpu_idle_time :: int
  cpu_busy_until :: int
  running_pid :: int
  running_end_time :: int
  finished_count :: int
  stdout :: "exit_record list"
  stderr :: "string list"
  vlog :: "vline list"

subsection \<open>Ready queue\<close>

definition RQ_init :: "nat \<Rightarrow> ReadyQueue" where
  "RQ_init capacity =
     \<lparr>rq_data = replicate capacity 0, rq_capacity = capacity,
      rq_front = 0, rq_rear = - 1, rq_count = 0\<rparr>"

definition RQ_isEmpty :: "ReadyQueue \<Rightarrow> bool" where
  "RQ_isEmpty q = (rq_count q = 0)"

text \<open>\<^verbatim>\<open>RQ_enqueue\<close> returns what it writes to \<^verbatim>\<open>stderr\<close>, the queue and the process table
  (it stamps \<^verbatim>\<open>last_ready_time\<close>).\<close>

definition RQ_enqueue ::
  "PCB list \<Rightarrow> ReadyQueue \<Rightarrow> int \<Rightarrow> int \<Rightarrow> string list \<times> ReadyQueue \<times> PCB list" where
  "RQ_enqueue ps q p t =
     (if rq_count q = rq_capacity q then ([''ReadyQueue overflow!''], q, ps)
      else
        let r = (rq_rear q + 1) smod int (rq_capacity q) in
        ([],
         q\<lparr>rq_rear := r, rq_data := (rq_data q)[nat r := p], rq_count := rq_count q + 1\<rparr>,
         ps[nat p := (ps ! nat p)\<lparr>last_ready_time := t\<rparr>]))"

definition RQ_dequeue :: "ReadyQueue \<Rightarrow> int \<times> ReadyQueue" where
  "RQ_dequeue q =
     (if RQ_isEmpty q then (- 1, q)
      else (rq_data q ! rq_front q,
            q\<lparr>rq_front := (rq_front q + 1) mod rq_capacity q, rq_count := rq_count q - 1\<rparr>))"

subsection \<open>Event min-heap\<close>

definition eventHeap_init :: "nat \<Rightarrow> EventMinHeap" where
  "eventHeap_init capacity =
     \<lparr>heapArray = replicate capacity \<lparr>time = 0, etype = EVT_ARRIVE, pid = 0\<rparr>,
      heap_capacity = capacity, heap_size = 0\<rparr>"

definition eventHeap_empty :: "EventMinHeap \<Rightarrow> bool" where
  "eventHeap_empty mh = (heap_size mh = 0)"

definition swapEvents :: "Event list \<Rightarrow> nat \<Rightarrow> nat \<Rightarrow> Event list" where
  "swapEvents a i j = a[i := a ! j, j := a ! i]"

definition compareEvents :: "PCB list \<Rightarrow> Event \<Rightarrow> Event \<Rightarrow> int" where
  "compareEvents ps a b =
     (if time a < time b then - 1
      else if time a > time b then 1
      else if EventType_val (etype a) < EventType_val (etype b) then - 1
      else if EventType_val (etype a) > EventType_val (etype b) then 1
      else
        let idA = pcb_id (ps ! nat (pid a)); idB = pcb_id (ps ! nat (pid b)) in
        if idA < idB then - 1
        else if idA > idB then 1
        else 0)"

function bubbleUp :: "PCB list \<Rightarrow> Event list \<Rightarrow> nat \<Rightarrow> Event list" where
  "bubbleUp ps a idx =
     (if idx > 0 then
        let parent = (idx - 1) div 2 in
        if compareEvents ps (a ! idx) (a ! parent) < 0
        then bubbleUp ps (swapEvents a idx parent) parent
        else a
      else a)"
  by pat_completeness auto
termination
  by (relation "measure (\<lambda>(ps, a, idx). idx)") auto

declare bubbleUp.simps [simp del]

text \<open>\<^verbatim>\<open>bubbleDown\<close> reads \<^verbatim>\<open>mh->size\<close>; it is the argument \<open>n\<close>.\<close>

function bubbleDown :: "PCB list \<Rightarrow> Event list \<Rightarrow> nat \<Rightarrow> nat \<Rightarrow> Event list" where
  "bubbleDown ps a n idx =
     (let left = 2 * idx + 1;
          right = 2 * idx + 2;
          smallest = idx;
          smallest = (if left < n \<and> compareEvents ps (a ! left) (a ! smallest) < 0
                      then left else smallest);
          smallest = (if right < n \<and> compareEvents ps (a ! right) (a ! smallest) < 0
                      then right else smallest)
      in if smallest \<noteq> idx then bubbleDown ps (swapEvents a idx smallest) n smallest
         else a)"
  by pat_completeness auto
termination
  by (relation "measure (\<lambda>(ps, a, n, idx). n - idx)") (auto split: if_splits)

declare bubbleDown.simps [simp del]

definition eventHeap_push ::
  "PCB list \<Rightarrow> EventMinHeap \<Rightarrow> Event \<Rightarrow> string list \<times> EventMinHeap" where
  "eventHeap_push ps mh ev =
     (if heap_size mh \<ge> heap_capacity mh then ([''EventHeap overflow!''], mh)
      else ([],
            mh\<lparr>heapArray := bubbleUp ps ((heapArray mh)[heap_size mh := ev]) (heap_size mh),
               heap_size := heap_size mh + 1\<rparr>))"

text \<open>\<^verbatim>\<open>INT_MAX\<close> of a 32-bit \<^verbatim>\<open>int\<close>.\<close>

definition INT_MAX :: int where
  "INT_MAX = 2147483647"

definition eventHeap_pop :: "PCB list \<Rightarrow> EventMinHeap \<Rightarrow> Event \<times> EventMinHeap" where
  "eventHeap_pop ps mh =
     (if heap_size mh = 0 then (\<lparr>time = INT_MAX, etype = EVT_ARRIVE, pid = - 1\<rparr>, mh)
      else
        let top = heapArray mh ! 0;
            n = heap_size mh - 1
        in if n > 0
           then (top, mh\<lparr>heapArray := bubbleDown ps ((heapArray mh)[0 := heapArray mh ! n]) n 0,
                         heap_size := n\<rparr>)
           else (top, mh\<lparr>heap_size := n\<rparr>))"

subsection \<open>Reading the input\<close>

text \<open>
  The input file is the list of the integers it holds, \<open>None\<close> when it cannot be
  opened. \<^verbatim>\<open>fscanf\<close> at the end of the file leaves its variable unset, and a 33rd
  burst is written outside the array: both are undefined behaviour, the result \<open>None\<close>
  of the functions below.
\<close>

text \<open>A cell of \<^verbatim>\<open>calloc\<close>.\<close>

definition PCB_zero :: PCB where
  "PCB_zero =
     \<lparr>pcb_id = 0, arrival_time = 0, num_bursts = 0,
      cpu_bursts = replicate 32 0, io_bursts = replicate 32 0,
      current_burst = 0, remaining_cpu = 0, total_cpu_io = 0, wait_time = 0,
      finish_time = 0, last_ready_time = 0, start_run_time = 0\<rparr>"

text \<open>The \<^verbatim>\<open>while (1)\<close> loop over the bursts of one process: the rest of the file, the
  process, \<^verbatim>\<open>cpu_idx\<close> and \<^verbatim>\<open>io_idx\<close>; it returns the process, \<^verbatim>\<open>cpu_idx\<close> and the rest.\<close>

fun read_bursts :: "int list \<Rightarrow> PCB \<Rightarrow> nat \<Rightarrow> nat \<Rightarrow> (PCB \<times> nat \<times> int list) option" where
  "read_bursts [] p cpu_idx io_idx = None"
| "read_bursts (cpu # ts) p cpu_idx io_idx =
     (if cpu = - 1 then Some (p, cpu_idx, ts)
      else if cpu_idx \<ge> 32 then None
      else
        let p = p\<lparr>cpu_bursts := (cpu_bursts p)[cpu_idx := cpu],
                  total_cpu_io := total_cpu_io p + cpu\<rparr>;
            cpu_idx = cpu_idx + 1
        in case ts of
             [] \<Rightarrow> None
           | io # ts' \<Rightarrow>
               if io = - 1 then Some (p, cpu_idx, ts')
               else if io_idx \<ge> 32 then None
               else read_bursts ts'
                      (p\<lparr>io_bursts := (io_bursts p)[io_idx := io],
                         total_cpu_io := total_cpu_io p + io\<rparr>)
                      cpu_idx (io_idx + 1))"

text \<open>The \<^verbatim>\<open>for\<close> loop over the processes, \<open>k\<close> of them left to read.\<close>

fun read_procs :: "nat \<Rightarrow> int list \<Rightarrow> PCB list option" where
  "read_procs 0 ts = Some []"
| "read_procs (Suc k) (p # arrival # ts) =
     (case read_bursts ts (PCB_zero\<lparr>pcb_id := p, arrival_time := arrival\<rparr>) 0 0 of
        None \<Rightarrow> None
      | Some (pcb, cpu_idx, ts') \<Rightarrow>
          (case read_procs k ts' of
             None \<Rightarrow> None
           | Some ps \<Rightarrow>
               Some (pcb\<lparr>num_bursts := int cpu_idx,
                         remaining_cpu := cpu_bursts pcb ! 0\<rparr> # ps)))"
| "read_procs (Suc k) ts = None"

text \<open>The result is the returned count and \<^verbatim>\<open>g_processes\<close>.\<close>

definition read_input_file :: "int list option \<Rightarrow> (int \<times> PCB list) option" where
  "read_input_file file =
     (case file of
        None \<Rightarrow> Some (- 1, [])
      | Some [] \<Rightarrow> None
      | Some (n # ts) \<Rightarrow>
          if n \<le> 0 then Some (0, [])
          else (case read_procs (nat n) ts of
                  None \<Rightarrow> None
                | Some ps \<Rightarrow> Some (n, ps)))"

subsection \<open>Printing\<close>

definition print_per_process_metrics :: "PCB list \<Rightarrow> int \<Rightarrow> int \<Rightarrow> exit_record" where
  "print_per_process_metrics ps now p =
     (let tat = finish_time (ps ! nat p) - arrival_time (ps ! nat p);
          run_time = total_cpu_io (ps ! nat p);
          perc = (if run_time = 0 then None
                  else Some (100 * real_of_int tat / real_of_int run_time));
          wtime = tat - run_time
      in \<lparr>ex_time = now, ex_id = pcb_id (ps ! nat p), ex_tat = tat,
          ex_perc = perc, ex_wtime = wtime\<rparr>)"

definition print_aggregate_metrics :: "int \<Rightarrow> int \<Rightarrow> int \<Rightarrow> int \<Rightarrow> aggregate" where
  "print_aggregate_metrics numProcs simulation_end total_wait total_idle =
     (let avg_wait = (if numProcs > 0 then real_of_int total_wait / real_of_int numProcs
                      else 0);
          total_tat = simulation_end;
          utilization =
            (if simulation_end > 0
             then 100 * (real_of_int (simulation_end - total_idle) / real_of_int simulation_end)
             else 0)
      in \<lparr>avg_wait = avg_wait, total_tat = total_tat, idle_time = total_idle,
          utilization = utilization\<rparr>)"

subsection \<open>Calls on the state of the run\<close>

text \<open>
  \<^verbatim>\<open>run_scheduler\<close> and \<^verbatim>\<open>schedule_next\<close> work on the local queues, the local counters
  and the global process table. The three functions below are the statements
  \<^verbatim>\<open>g_processes[p].field = ...\<close>, \<^verbatim>\<open>eventHeap_push(&eventQ, ev)\<close> and
  \<^verbatim>\<open>RQ_enqueue(&readyQ, p, t)\<close> on the state record.
\<close>

definition upd_pcb :: "sim \<Rightarrow> int \<Rightarrow> (PCB \<Rightarrow> PCB) \<Rightarrow> sim" where
  "upd_pcb s p f = s\<lparr>g_processes := (g_processes s)[nat p := f (g_processes s ! nat p)]\<rparr>"

definition sim_push :: "sim \<Rightarrow> Event \<Rightarrow> sim" where
  "sim_push s ev =
     (let (msgs, mh) = eventHeap_push (g_processes s) (eventQ s) ev
      in s\<lparr>eventQ := mh, stderr := stderr s @ msgs\<rparr>)"

definition sim_enqueue :: "sim \<Rightarrow> int \<Rightarrow> int \<Rightarrow> sim" where
  "sim_enqueue s p t =
     (let (msgs, rq, ps) = RQ_enqueue (g_processes s) (readyQ s) p t
      in s\<lparr>readyQ := rq, g_processes := ps, stderr := stderr s @ msgs\<rparr>)"

subsection \<open>The dispatcher\<close>

definition schedule_next :: "sim \<Rightarrow> int \<Rightarrow> int \<Rightarrow> sim" where
  "schedule_next s now q =
     (if running_pid s \<ge> 0 then s
      else if \<not> RQ_isEmpty (readyQ s) then
        let (p, rq) = RQ_dequeue (readyQ s);
            pcb = g_processes s ! nat p;
            pcb = pcb\<lparr>wait_time := wait_time pcb + (now - last_ready_time pcb)\<rparr>;
            pcb = pcb\<lparr>start_run_time := now\<rparr>;
            idle = (if now > cpu_busy_until s
                    then cpu_idle_time s + (now - cpu_busy_until s)
                    else cpu_idle_time s);
            slice = (if remaining_cpu pcb > q then q else remaining_cpu pcb);
            end_time = now + slice;
            e = \<lparr>time = end_time,
                 etype = (if slice = remaining_cpu pcb then EVT_CPU_COMPLETE
                          else EVT_CPU_TIMEOUT),
                 pid = p\<rparr>
        in sim_push
             (s\<lparr>readyQ := rq, g_processes := (g_processes s)[nat p := pcb],
                cpu_idle_time := idle, running_pid := p, running_end_time := end_time,
                cpu_busy_until := end_time,
                vlog := vlog s @ [V_scheduled now (pcb_id pcb) slice]\<rparr>)
             e
      else s)"

subsection \<open>The main loop of \<^verbatim>\<open>run_scheduler\<close>\<close>

text \<open>
  The cases \<^verbatim>\<open>EVT_CPU_COMPLETE\<close> and \<^verbatim>\<open>EVT_CPU_TIMEOUT\<close> of the \<^verbatim>\<open>switch\<close> begin with
  the same statements (the time used, \<^verbatim>\<open>cpu_busy_until\<close>, \<^verbatim>\<open>running_pid = -1\<close>) and hold
  the same block for a burst that has ended (the process exits, or its I/O burst is
  scheduled). The two blocks are \<open>cpu_release\<close> and \<open>burst_done\<close>, each written once.
\<close>

definition cpu_release :: "sim \<Rightarrow> int \<Rightarrow> sim" where
  "cpu_release s p =
     (let now = current_time s;
          used_time = now - start_run_time (g_processes s ! nat p);
          used_time = (if used_time < 0 then 0 else used_time);
          s = upd_pcb s p (\<lambda>pcb. pcb\<lparr>remaining_cpu := remaining_cpu pcb - used_time\<rparr>);
          s = (if remaining_cpu (g_processes s ! nat p) < 0
               then upd_pcb s p (\<lambda>pcb. pcb\<lparr>remaining_cpu := 0\<rparr>)
               else s);
          s = (if now < cpu_busy_until s then s\<lparr>cpu_busy_until := now\<rparr> else s)
      in s\<lparr>running_pid := - 1\<rparr>)"

definition burst_done :: "sim \<Rightarrow> int \<Rightarrow> sim" where
  "burst_done s p =
     (let now = current_time s;
          cb = current_burst (g_processes s ! nat p) + 1
      in if cb \<ge> num_bursts (g_processes s ! nat p) then
           let s = upd_pcb s p (\<lambda>pcb. pcb\<lparr>finish_time := now\<rparr>);
               s = s\<lparr>finished_count := finished_count s + 1\<rparr>
           in s\<lparr>stdout := stdout s @ [print_per_process_metrics (g_processes s) now p]\<rparr>
         else
           let io_time = io_bursts (g_processes s ! nat p) ! nat (cb - 1);
               wakeup = now + io_time;
               s = sim_push s \<lparr>time = wakeup, etype = EVT_ARRIVE, pid = p\<rparr>;
               s = upd_pcb s p (\<lambda>pcb. pcb\<lparr>current_burst := cb\<rparr>);
               s = upd_pcb s p (\<lambda>pcb. pcb\<lparr>remaining_cpu := cpu_bursts pcb ! nat cb\<rparr>)
           in s\<lparr>vlog := vlog s @ [V_io_return now (pcb_id (g_processes s ! nat p)) wakeup]\<rparr>)"

definition case_EVT_ARRIVE :: "int \<Rightarrow> sim \<Rightarrow> Event \<Rightarrow> sim" where
  "case_EVT_ARRIVE q s evt =
     (let now = current_time s;
          s = sim_enqueue s (pid evt) now;
          s = s\<lparr>vlog := vlog s @ [V_arrival now (pcb_id (g_processes s ! nat (pid evt)))]\<rparr>
      in if running_pid s < 0 then schedule_next s now q else s)"

definition case_EVT_CPU_COMPLETE :: "int \<Rightarrow> sim \<Rightarrow> Event \<Rightarrow> sim" where
  "case_EVT_CPU_COMPLETE q s evt =
     (let now = current_time s;
          s = cpu_release s (pid evt);
          s = burst_done s (pid evt)
      in schedule_next s now q)"

definition case_EVT_CPU_TIMEOUT :: "int \<Rightarrow> sim \<Rightarrow> Event \<Rightarrow> sim" where
  "case_EVT_CPU_TIMEOUT q s evt =
     (let now = current_time s;
          p = pid evt;
          s = cpu_release s p;
          s = (if remaining_cpu (g_processes s ! nat p) > 0 then
                 let s = s\<lparr>vlog := vlog s @ [V_timeout now (pcb_id (g_processes s ! nat p))]\<rparr>
                 in sim_enqueue s p now
               else burst_done s p)
      in schedule_next s now q)"

definition loop_cond :: "sim \<Rightarrow> bool" where
  "loop_cond s = (finished_count s < g_numProcs s \<and> \<not> eventHeap_empty (eventQ s))"

definition loop_body :: "int \<Rightarrow> sim \<Rightarrow> sim" where
  "loop_body q s =
     (let (evt, mh) = eventHeap_pop (g_processes s) (eventQ s);
          s = s\<lparr>eventQ := mh, current_time := time evt\<rparr>
      in case etype evt of
           EVT_ARRIVE \<Rightarrow> case_EVT_ARRIVE q s evt
         | EVT_CPU_COMPLETE \<Rightarrow> case_EVT_CPU_COMPLETE q s evt
         | EVT_CPU_TIMEOUT \<Rightarrow> case_EVT_CPU_TIMEOUT q s evt)"

partial_function (option) main_loop :: "int \<Rightarrow> sim \<Rightarrow> sim option" where
  "main_loop q s = (if loop_cond s then main_loop q (loop_body q s) else Some s)"

declare main_loop.simps [code]

text \<open>The state before the loop: empty queues of capacities \<open>4 * n\<close> and \<open>n + 10\<close>,
  then one arrival event for each process.\<close>

definition insert_arrival :: "nat \<Rightarrow> sim \<Rightarrow> sim" where
  "insert_arrival i s =
     sim_push s \<lparr>time = arrival_time (g_processes s ! i), etype = EVT_ARRIVE, pid = int i\<rparr>"

definition sim_init :: "int \<Rightarrow> PCB list \<Rightarrow> sim" where
  "sim_init n ps =
     fold insert_arrival [0..<nat n]
       \<lparr>g_processes = ps, g_numProcs = n,
        eventQ = eventHeap_init (nat (n * 4)), readyQ = RQ_init (nat (n + 10)),
        current_time = 0, cpu_idle_time = 0, cpu_busy_until = 0, running_pid = - 1,
        running_end_time = 0, finished_count = 0, stdout = [], stderr = [], vlog = []\<rparr>"

text \<open>After the loop: the latest finish time and the sum of the wait times.\<close>

definition simulation_end_of :: "sim \<Rightarrow> int" where
  "simulation_end_of s =
     fold (\<lambda>i e. if finish_time (g_processes s ! i) > e then finish_time (g_processes s ! i)
                  else e)
       [0..<nat (g_numProcs s)] 0"

definition total_wait_of :: "sim \<Rightarrow> int" where
  "total_wait_of s =
     fold (\<lambda>i w. w + wait_time (g_processes s ! i)) [0..<nat (g_numProcs s)] 0"

datatype run_result = No_processes | Finished sim aggregate

text \<open>\<^verbatim>\<open>run_scheduler\<close> on an input file: the part after the loop, the part after the
  file is read, and the whole. \<open>None\<close>: reading the file is undefined, or the loop does
  not end.\<close>

fun report :: "sim option \<Rightarrow> run_result option" where
  "report None = None"
| "report (Some s) =
     Some (Finished (s\<lparr>vlog := vlog s @ [V_idle (simulation_end_of s)]\<rparr>)
       (print_aggregate_metrics (g_numProcs s) (simulation_end_of s) (total_wait_of s)
          (cpu_idle_time s)))"

fun simulate :: "int \<Rightarrow> (int \<times> PCB list) option \<Rightarrow> run_result option" where
  "simulate q None = None"
| "simulate q (Some (n, ps)) =
     (if n \<le> 0 then Some No_processes else report (main_loop q (sim_init n ps)))"

definition run_scheduler :: "int \<Rightarrow> int list option \<Rightarrow> run_result option" where
  "run_scheduler q file = simulate q (read_input_file file)"

section \<open>Vocabulary of the properties\<close>

subsection \<open>Heap order\<close>

text \<open>\<open>ev_le\<close> is the order \<^verbatim>\<open>compareEvents\<close> decides; the array \<open>a\<close> is a heap up to \<open>n\<close>
  when no cell is below its parent. \<open>up_inv\<close> and \<open>down_inv\<close> are the heap property
  with one cell out of place, as \<^verbatim>\<open>bubbleUp\<close> and \<^verbatim>\<open>bubbleDown\<close> see it; \<open>smallest_of\<close>
  is the index \<^verbatim>\<open>smallest\<close> that one round of \<^verbatim>\<open>bubbleDown\<close> computes.\<close>

definition ev_le :: "PCB list \<Rightarrow> Event \<Rightarrow> Event \<Rightarrow> bool" where
  "ev_le ps a b = (compareEvents ps a b \<le> 0)"

definition is_heap :: "PCB list \<Rightarrow> Event list \<Rightarrow> nat \<Rightarrow> bool" where
  "is_heap ps a n = (\<forall>i. 0 < i \<and> i < n \<longrightarrow> ev_le ps (a ! ((i - 1) div 2)) (a ! i))"

definition up_inv :: "PCB list \<Rightarrow> Event list \<Rightarrow> nat \<Rightarrow> nat \<Rightarrow> bool" where
  "up_inv ps a n i =
     ((\<forall>j. 0 < j \<and> j < n \<and> j \<noteq> i \<longrightarrow> ev_le ps (a ! ((j - 1) div 2)) (a ! j)) \<and>
      (\<forall>j. 0 < j \<and> j < n \<and> (j - 1) div 2 = i \<and> 0 < i \<longrightarrow>
           ev_le ps (a ! ((i - 1) div 2)) (a ! j)))"

definition down_inv :: "PCB list \<Rightarrow> Event list \<Rightarrow> nat \<Rightarrow> nat \<Rightarrow> bool" where
  "down_inv ps a n i =
     ((\<forall>j. 0 < j \<and> j < n \<and> (j - 1) div 2 \<noteq> i \<longrightarrow> ev_le ps (a ! ((j - 1) div 2)) (a ! j)) \<and>
      (\<forall>j. 0 < j \<and> j < n \<and> (j - 1) div 2 = i \<and> 0 < i \<longrightarrow>
           ev_le ps (a ! ((i - 1) div 2)) (a ! j)))"

definition smallest_of :: "PCB list \<Rightarrow> Event list \<Rightarrow> nat \<Rightarrow> nat \<Rightarrow> nat" where
  "smallest_of ps a n idx =
     (let left = 2 * idx + 1;
          right = 2 * idx + 2;
          smallest = idx;
          smallest = (if left < n \<and> compareEvents ps (a ! left) (a ! smallest) < 0
                      then left else smallest);
          smallest = (if right < n \<and> compareEvents ps (a ! right) (a ! smallest) < 0
                      then right else smallest)
      in smallest)"

definition heap_events :: "EventMinHeap \<Rightarrow> Event multiset" where
  "heap_events mh = mset (take (heap_size mh) (heapArray mh))"

definition heap_wf :: "PCB list \<Rightarrow> EventMinHeap \<Rightarrow> bool" where
  "heap_wf ps mh =
     (heap_size mh \<le> heap_capacity mh \<and> length (heapArray mh) = heap_capacity mh \<and>
      is_heap ps (heapArray mh) (heap_size mh))"

fun kind_before :: "EventType \<Rightarrow> EventType \<Rightarrow> bool" where
  "kind_before EVT_ARRIVE EVT_CPU_COMPLETE = True"
| "kind_before EVT_ARRIVE EVT_CPU_TIMEOUT = True"
| "kind_before EVT_CPU_COMPLETE EVT_CPU_TIMEOUT = True"
| "kind_before _ _ = False"

definition event_before :: "PCB list \<Rightarrow> Event \<Rightarrow> Event \<Rightarrow> bool" where
  "event_before ps a b =
     (time a < time b \<or>
      (time a = time b \<and>
       (kind_before (etype a) (etype b) \<or>
        (etype a = etype b \<and> pcb_id (ps ! nat (pid a)) < pcb_id (ps ! nat (pid b))))))"

inductive heap_trace :: "PCB list \<Rightarrow> nat \<Rightarrow> EventMinHeap \<Rightarrow> Event multiset \<Rightarrow> bool"
  for ps :: "PCB list" and cap :: nat where
  trace_init: "heap_trace ps cap (eventHeap_init cap) {#}"
| trace_push:
    "heap_trace ps cap mh M \<Longrightarrow> heap_size mh < heap_capacity mh \<Longrightarrow>
     0 \<le> pid e \<Longrightarrow> nat (pid e) < length ps \<Longrightarrow>
     heap_trace ps cap (snd (eventHeap_push ps mh e)) (add_mset e M)"
| trace_push_full:
    "heap_trace ps cap mh M \<Longrightarrow> heap_capacity mh \<le> heap_size mh \<Longrightarrow>
     heap_trace ps cap (snd (eventHeap_push ps mh e)) M"
| trace_pop:
    "heap_trace ps cap mh M \<Longrightarrow> \<not> eventHeap_empty mh \<Longrightarrow>
     heap_trace ps cap (snd (eventHeap_pop ps mh)) (M - {#fst (eventHeap_pop ps mh)#})"

subsection \<open>What a run reports\<close>

text \<open>The aggregate of a run; the slices \<open>(id, start, end)\<close> of the dispatches and the
  exits \<open>(id, time)\<close>, in order.\<close>

fun agg_of :: "run_result option \<Rightarrow> aggregate option" where
  "agg_of (Some (Finished s a)) = Some a"
| "agg_of _ = None"

fun slices :: "vline list \<Rightarrow> (int \<times> int \<times> int) list" where
  "slices [] = []"
| "slices (V_scheduled t i d # vs) = (i, t, t + d) # slices vs"
| "slices (v # vs) = slices vs"

fun timeline :: "run_result option \<Rightarrow> ((int \<times> int \<times> int) list \<times> (int \<times> int) list) option" where
  "timeline (Some (Finished s a)) = Some (slices (vlog s), map (\<lambda>r. (ex_id r, ex_time r)) (stdout s))"
| "timeline _ = None"

definition two_procs :: "PCB list" where
  "two_procs = [PCB_zero\<lparr>pcb_id := 1\<rparr>, PCB_zero\<lparr>pcb_id := 2\<rparr>]"

subsection \<open>Ready queue contents\<close>

text \<open>The entries of the circular buffer from \<^verbatim>\<open>front\<close> on, and the shape every queue of
  a run has.\<close>

definition rq_list :: "ReadyQueue \<Rightarrow> int list" where
  "rq_list q = map (\<lambda>k. rq_data q ! ((rq_front q + k) mod rq_capacity q)) [0..<rq_count q]"

definition rq_wf :: "ReadyQueue \<Rightarrow> bool" where
  "rq_wf q =
     (0 < rq_capacity q \<and> length (rq_data q) = rq_capacity q \<and>
      rq_front q < rq_capacity q \<and> rq_count q \<le> rq_capacity q \<and>
      - 1 \<le> rq_rear q \<and>
      (rq_rear q + 1) mod int (rq_capacity q) = int ((rq_front q + rq_count q) mod rq_capacity q))"

subsection \<open>Invariants of a run\<close>

text \<open>\<open>struct_wf\<close>: the queues are well formed, have the capacities \<^verbatim>\<open>run_scheduler\<close>
  gives them, and hold indices of the process table only.\<close>

definition struct_wf :: "sim \<Rightarrow> bool" where
  "struct_wf s =
     (0 < g_numProcs s \<and> length (g_processes s) = nat (g_numProcs s) \<and>
      heap_wf (g_processes s) (eventQ s) \<and>
      heap_capacity (eventQ s) = nat (g_numProcs s * 4) \<and>
      rq_wf (readyQ s) \<and> rq_capacity (readyQ s) = nat (g_numProcs s + 10) \<and>
      (\<forall>e \<in># heap_events (eventQ s). 0 \<le> pid e \<and> pid e < g_numProcs s) \<and>
      (\<forall>p \<in> set (rq_list (readyQ s)). 0 \<le> p \<and> p < g_numProcs s))"

text \<open>What a dispatch writes into the process it picks, the event it pushes, and what
  the accounting at the end of a slice writes.\<close>

definition dispatched_pcb :: "PCB \<Rightarrow> int \<Rightarrow> PCB" where
  "dispatched_pcb pcb now =
     pcb\<lparr>wait_time := wait_time pcb + (now - last_ready_time pcb), start_run_time := now\<rparr>"

definition dispatch_event :: "PCB \<Rightarrow> int \<Rightarrow> int \<Rightarrow> int \<Rightarrow> Event" where
  "dispatch_event pcb p now q =
     \<lparr>time = now + min (remaining_cpu pcb) q,
      etype = (if min (remaining_cpu pcb) q = remaining_cpu pcb then EVT_CPU_COMPLETE
               else EVT_CPU_TIMEOUT),
      pid = p\<rparr>"

definition released_pcb :: "PCB \<Rightarrow> int \<Rightarrow> PCB" where
  "released_pcb pcb now =
     pcb\<lparr>remaining_cpu :=
           (if remaining_cpu pcb - (if now - start_run_time pcb < 0 then 0
                                    else now - start_run_time pcb) < 0
            then 0
            else remaining_cpu pcb - (if now - start_run_time pcb < 0 then 0
                                      else now - start_run_time pcb))\<rparr>"

text \<open>The event the loop body pops, and the state it handles the event in.\<close>

definition popped :: "sim \<Rightarrow> Event" where
  "popped s = fst (eventHeap_pop (g_processes s) (eventQ s))"

definition after_pop :: "sim \<Rightarrow> sim" where
  "after_pop s =
     s\<lparr>eventQ := snd (eventHeap_pop (g_processes s) (eventQ s)), current_time := time (popped s)\<rparr>"

text \<open>
  The invariant at the head of the loop, on the events \<open>H\<close> in the heap, the ready
  queue \<open>R\<close>, \<^verbatim>\<open>running_pid\<close> and \<^verbatim>\<open>finished_count\<close>: no process has two entries in
  \<open>H\<close> and \<open>R\<close> together; the entries and the finished processes are \<open>n\<close> in all;
  with the CPU idle the ready queue is empty and no slice is pending, with the CPU busy
  exactly one slice is pending. \<open>pre_inv\<close> is the same between the handling of an event
  that freed the CPU and the dispatch that follows.
\<close>

definition cpu_count :: "Event multiset \<Rightarrow> nat" where
  "cpu_count H = size {#e \<in># H. etype e \<noteq> EVT_ARRIVE#}"

definition at_most_once :: "int multiset \<Rightarrow> bool" where
  "at_most_once M = (\<forall>p. count M p \<le> 1)"

definition pre_inv :: "int \<Rightarrow> Event multiset \<Rightarrow> int list \<Rightarrow> int \<Rightarrow> bool" where
  "pre_inv n H R fin =
     (at_most_once (image_mset pid H + mset R) \<and>
      int (size H) + int (length R) + fin = n \<and> 0 \<le> fin \<and> cpu_count H = 0)"

definition abs_inv :: "int \<Rightarrow> Event multiset \<Rightarrow> int list \<Rightarrow> int \<Rightarrow> int \<Rightarrow> bool" where
  "abs_inv n H R run fin =
     (at_most_once (image_mset pid H + mset R) \<and>
      int (size H) + int (length R) + fin = n \<and> 0 \<le> fin \<and>
      (if run < 0 then R = [] \<and> cpu_count H = 0 else cpu_count H = 1))"

definition sim_inv :: "sim \<Rightarrow> bool" where
  "sim_inv s =
     (struct_wf s \<and>
      abs_inv (g_numProcs s) (heap_events (eventQ s)) (rq_list (readyQ s)) (running_pid s)
        (finished_count s) \<and>
      stderr s = [])"

text \<open>The state before the first arrival is inserted, the arrival events, and the states
  at the head of the loop in a run.\<close>

definition arrival_event :: "PCB list \<Rightarrow> nat \<Rightarrow> Event" where
  "arrival_event ps i = \<lparr>time = arrival_time (ps ! i), etype = EVT_ARRIVE, pid = int i\<rparr>"

definition init_vars :: "int \<Rightarrow> PCB list \<Rightarrow> sim" where
  "init_vars n ps =
     \<lparr>g_processes = ps, g_numProcs = n,
      eventQ = eventHeap_init (nat (n * 4)), readyQ = RQ_init (nat (n + 10)),
      current_time = 0, cpu_idle_time = 0, cpu_busy_until = 0, running_pid = - 1,
      running_end_time = 0, finished_count = 0, stdout = [], stderr = [], vlog = []\<rparr>"

inductive reach :: "int \<Rightarrow> int \<Rightarrow> PCB list \<Rightarrow> sim \<Rightarrow> bool"
  for q :: int and n :: int and ps :: "PCB list" where
  reach_init: "reach q n ps (sim_init n ps)"
| reach_step: "reach q n ps s \<Longrightarrow> loop_cond s \<Longrightarrow> reach q n ps (loop_body q s)"

text \<open>The process table of the file \<^verbatim>\<open>1  1 5 2 -1\<close>.\<close>

definition one_proc :: "PCB list" where
  "one_proc =
     [PCB_zero\<lparr>pcb_id := 1, arrival_time := 5, num_bursts := 1,
                cpu_bursts := (replicate 32 0)[0 := 2], remaining_cpu := 2,
                total_cpu_io := 2\<rparr>]"

subsection \<open>The event min-heap returns its minimum\<close>

lemma ev_le_refl: "ev_le ps a a"
  by (simp add: ev_le_def compareEvents_def)

lemma ev_le_total: "ev_le ps a b \<or> ev_le ps b a"
  by (auto simp: ev_le_def compareEvents_def Let_def)

lemma ev_le_trans: "ev_le ps a b \<Longrightarrow> ev_le ps b c \<Longrightarrow> ev_le ps a c"
  by (simp add: ev_le_def compareEvents_def Let_def split: if_splits)

lemma cmp_neg_iff: "compareEvents ps a b < 0 \<longleftrightarrow> \<not> ev_le ps b a"
  by (auto simp: ev_le_def compareEvents_def Let_def)

lemma cmp_neg_le: "compareEvents ps a b < 0 \<Longrightarrow> ev_le ps a b"
  by (simp add: ev_le_def)

lemma parent_less: "0 < i \<Longrightarrow> (i - 1) div 2 < (i::nat)"
  by arith

lemma swap_nth:
  "i < length a \<Longrightarrow> j < length a \<Longrightarrow>
   swapEvents a i j ! k = (if k = j then a ! i else if k = i then a ! j else a ! k)"
  by (simp add: swapEvents_def nth_list_update)

lemma swap_length: "length (swapEvents a i j) = length a"
  by (simp add: swapEvents_def)

lemma swap_take_mset:
  assumes "i < n" "j < n" "n \<le> length a"
  shows "mset (take n (swapEvents a i j)) = mset (take n a)"
proof -
  have "take n (swapEvents a i j) = (take n a)[i := take n a ! j, j := take n a ! i]"
    using assms by (simp add: swapEvents_def take_update_swap)
  then show ?thesis
    using assms mset_swap [of j "take n a" i] by simp
qed

lemma up_inv_swap:
  assumes inv: "up_inv ps a n i" and i: "0 < i" "i < n" "n \<le> length a"
    and lt: "compareEvents ps (a ! i) (a ! ((i - 1) div 2)) < 0"
  shows "up_inv ps (swapEvents a i ((i - 1) div 2)) n ((i - 1) div 2)"
proof -
  let ?p = "(i - 1) div 2"
  let ?b = "swapEvents a i ?p"
  have p: "?p < i" using i(1) by (rule parent_less)
  have ip: "ev_le ps (a ! i) (a ! ?p)" using lt by (rule cmp_neg_le)
  have nth: "\<And>k. k < n \<Longrightarrow> ?b ! k = (if k = ?p then a ! i else if k = i then a ! ?p else a ! k)"
    using i p by (simp add: swap_nth)
  have c1: "\<And>j. 0 < j \<Longrightarrow> j < n \<Longrightarrow> j \<noteq> i \<Longrightarrow> ev_le ps (a ! ((j - 1) div 2)) (a ! j)"
    using inv by (simp add: up_inv_def)
  have c2: "\<And>j. 0 < j \<Longrightarrow> j < n \<Longrightarrow> (j - 1) div 2 = i \<Longrightarrow>
              ev_le ps (a ! ((i - 1) div 2)) (a ! j)"
    using inv i by (simp add: up_inv_def)
  have g1: "ev_le ps (?b ! ((j - 1) div 2)) (?b ! j)" if j: "0 < j" "j < n" "j \<noteq> ?p" for j
  proof -
    have pj: "(j - 1) div 2 < j" "(j - 1) div 2 < n" using j parent_less [of j] by auto
    show ?thesis
    proof (cases "j = i")
      case True
      then show ?thesis using nth [of i] nth [of ?p] i p ip by simp
    next
      case ji: False
      show ?thesis
      proof (cases "(j - 1) div 2 = i")
        case True
        then show ?thesis using nth [of j] nth [of i] c2 [of j] j ji i p by simp
      next
        case pi: False
        show ?thesis
        proof (cases "(j - 1) div 2 = ?p")
          case True
          have "ev_le ps (a ! ?p) (a ! j)" using c1 [of j] j ji True by simp
          then have "ev_le ps (a ! i) (a ! j)" using ip ev_le_trans by blast
          then show ?thesis using nth [of j] nth [of ?p] True j ji p i by simp
        next
          case False
          then show ?thesis using nth [of j] nth [of "(j - 1) div 2"] c1 [of j] j ji pi pj by simp
        qed
      qed
    qed
  qed
  have g2: "ev_le ps (?b ! ((?p - 1) div 2)) (?b ! j)"
    if j: "0 < j" "j < n" "(j - 1) div 2 = ?p" "0 < ?p" for j
  proof -
    have pp: "(?p - 1) div 2 < ?p" using j(4) by (rule parent_less)
    have gp: "?b ! ((?p - 1) div 2) = a ! ((?p - 1) div 2)"
      using nth [of "(?p - 1) div 2"] pp p i by simp
    have ppp: "ev_le ps (a ! ((?p - 1) div 2)) (a ! ?p)"
      using c1 [of ?p] j p i by simp
    show ?thesis
    proof (cases "j = i")
      case True
      then show ?thesis using nth [of i] gp ppp i p by simp
    next
      case False
      have jp: "j \<noteq> ?p" using j by auto
      have "ev_le ps (a ! ?p) (a ! j)" using c1 [of j] j False by simp
      then have "ev_le ps (a ! ((?p - 1) div 2)) (a ! j)" using ppp ev_le_trans by blast
      then show ?thesis using nth [of j] gp j False jp by simp
    qed
  qed
  show ?thesis
    unfolding up_inv_def using g1 g2 by blast
qed

lemma bubbleUp_is_heap:
  "up_inv ps a n i \<Longrightarrow> i < n \<Longrightarrow> n \<le> length a \<Longrightarrow> is_heap ps (bubbleUp ps a i) n"
proof (induction ps a i rule: bubbleUp.induct)
  case (1 ps a idx)
  show ?case
  proof (cases "idx > 0 \<and> compareEvents ps (a ! idx) (a ! ((idx - 1) div 2)) < 0")
    case True
    then have "up_inv ps (swapEvents a idx ((idx - 1) div 2)) n ((idx - 1) div 2)"
      using up_inv_swap "1.prems" by blast
    moreover have "(idx - 1) div 2 < n" using "1.prems" by auto
    ultimately have "is_heap ps (bubbleUp ps (swapEvents a idx ((idx - 1) div 2)) ((idx - 1) div 2)) n"
      using "1.IH" [OF _ refl] True "1.prems" by (simp add: swap_length)
    then show ?thesis using True by (subst bubbleUp.simps) (simp add: Let_def)
  next
    case False
    have "is_heap ps a n"
      unfolding is_heap_def
    proof (intro allI impI)
      fix i assume i: "0 < i \<and> i < n"
      show "ev_le ps (a ! ((i - 1) div 2)) (a ! i)"
      proof (cases "i = idx")
        case True
        then show ?thesis using False i cmp_neg_iff ev_le_total by blast
      next
        case False
        then show ?thesis using "1.prems"(1) i by (simp add: up_inv_def)
      qed
    qed
    then show ?thesis using False by (subst bubbleUp.simps) (auto simp: Let_def)
  qed
qed

lemma bubbleUp_mset:
  "i < n \<Longrightarrow> n \<le> length a \<Longrightarrow>
   mset (take n (bubbleUp ps a i)) = mset (take n a) \<and> length (bubbleUp ps a i) = length a"
proof (induction ps a i rule: bubbleUp.induct)
  case (1 ps a idx)
  show ?case
  proof (cases "idx > 0 \<and> compareEvents ps (a ! idx) (a ! ((idx - 1) div 2)) < 0")
    case True
    have p: "(idx - 1) div 2 < n" using "1.prems" by auto
    have "mset (take n (bubbleUp ps (swapEvents a idx ((idx - 1) div 2)) ((idx - 1) div 2)))
            = mset (take n (swapEvents a idx ((idx - 1) div 2))) \<and>
          length (bubbleUp ps (swapEvents a idx ((idx - 1) div 2)) ((idx - 1) div 2))
            = length (swapEvents a idx ((idx - 1) div 2))"
      using "1.IH" [OF _ refl] True p "1.prems" by (simp add: swap_length)
    then show ?thesis
      using True p "1.prems" by (subst (1 2) bubbleUp.simps) (simp add: Let_def swap_take_mset swap_length)
  next
    case False
    then show ?thesis by (subst (1 2) bubbleUp.simps) (auto simp: Let_def)
  qed
qed

lemma bubbleDown_step:
  "bubbleDown ps a n idx =
     (if smallest_of ps a n idx \<noteq> idx
      then bubbleDown ps (swapEvents a idx (smallest_of ps a n idx)) n (smallest_of ps a n idx)
      else a)"
  by (subst bubbleDown.simps) (simp add: smallest_of_def Let_def)

lemma child_cases: "0 < j \<Longrightarrow> (j - 1) div 2 = (i::nat) \<Longrightarrow> j = 2 * i + 1 \<or> j = 2 * i + 2"
  by arith

lemma cmp_neg_trans:
  "compareEvents ps a b < 0 \<Longrightarrow> compareEvents ps b c < 0 \<Longrightarrow> compareEvents ps a c < 0"
  by (simp add: compareEvents_def Let_def split: if_splits)

lemma cmp_neg_le_trans:
  "compareEvents ps a b < 0 \<Longrightarrow> ev_le ps b c \<Longrightarrow> ev_le ps a c"
  using cmp_neg_le ev_le_trans by blast

lemma smallest_of_idx:
  assumes "smallest_of ps a n idx = idx" "0 < j" "j < n" "(j - 1) div 2 = idx"
  shows "ev_le ps (a ! idx) (a ! j)"
proof -
  from assms(2,4) have "j = 2 * idx + 1 \<or> j = 2 * idx + 2" by (rule child_cases)
  then show ?thesis
    using assms(1,3) cmp_neg_iff [of ps "a ! j" "a ! idx"]
    by (auto simp: smallest_of_def Let_def split: if_splits)
qed

lemma smallest_of_child:
  assumes "smallest_of ps a n idx = c" "c \<noteq> idx"
  shows "c < n \<and> (c - 1) div 2 = idx \<and> 0 < c \<and> compareEvents ps (a ! c) (a ! idx) < 0 \<and>
         (\<forall>j. 0 < j \<and> j < n \<and> (j - 1) div 2 = idx \<longrightarrow> ev_le ps (a ! c) (a ! j))"
proof -
  let ?l = "2 * idx + 1" and ?r = "2 * idx + 2"
  have ch: "\<And>j. 0 < j \<Longrightarrow> (j - 1) div 2 = idx \<Longrightarrow> j = ?l \<or> j = ?r"
    by (rule child_cases)
  consider (L) "c = ?l" "?l < n" "compareEvents ps (a ! ?l) (a ! idx) < 0"
      "\<not> (?r < n \<and> compareEvents ps (a ! ?r) (a ! ?l) < 0)"
    | (R1) "c = ?r" "?r < n" "compareEvents ps (a ! ?l) (a ! idx) < 0"
      "compareEvents ps (a ! ?r) (a ! ?l) < 0"
    | (R2) "c = ?r" "?r < n" "\<not> compareEvents ps (a ! ?l) (a ! idx) < 0"
      "compareEvents ps (a ! ?r) (a ! idx) < 0"
    using assms by (auto simp: smallest_of_def Let_def split: if_splits)
  then show ?thesis
  proof cases
    case L
    have "ev_le ps (a ! c) (a ! j)" if "0 < j" "j < n" "(j - 1) div 2 = idx" for j
      using ch [OF that(1,3)] that(2) L cmp_neg_iff [of ps "a ! ?r" "a ! ?l"] ev_le_refl
      by auto
    then show ?thesis using L by auto
  next
    case R1
    have "ev_le ps (a ! c) (a ! j)" if "0 < j" "j < n" "(j - 1) div 2 = idx" for j
      using ch [OF that(1,3)] that(2) R1 cmp_neg_le [of ps "a ! ?r" "a ! ?l"] ev_le_refl
      by auto
    moreover have "compareEvents ps (a ! ?r) (a ! idx) < 0"
      using R1 cmp_neg_trans by blast
    ultimately show ?thesis using R1 by auto
  next
    case R2
    have "ev_le ps (a ! idx) (a ! ?l)" using R2 cmp_neg_iff by blast
    then have "ev_le ps (a ! ?r) (a ! ?l)" using R2 cmp_neg_le_trans by blast
    then have "ev_le ps (a ! c) (a ! j)" if "0 < j" "j < n" "(j - 1) div 2 = idx" for j
      using ch [OF that(1,3)] that(2) R2 ev_le_refl by auto
    then show ?thesis using R2 by auto
  qed
qed

lemma down_inv_swap:
  assumes inv: "down_inv ps a n i" and n: "n \<le> length a"
    and c: "c < n" "(c - 1) div 2 = i" "0 < c"
    and lt: "compareEvents ps (a ! c) (a ! i) < 0"
    and least: "\<And>j. 0 < j \<Longrightarrow> j < n \<Longrightarrow> (j - 1) div 2 = i \<Longrightarrow> ev_le ps (a ! c) (a ! j)"
  shows "down_inv ps (swapEvents a i c) n c"
proof -
  let ?b = "swapEvents a i c"
  have ic: "i < c" using c parent_less by blast
  have nth: "\<And>k. ?b ! k = (if k = c then a ! i else if k = i then a ! c else a ! k)"
    using ic c n by (simp add: swap_nth)
  have d1: "\<And>j. 0 < j \<Longrightarrow> j < n \<Longrightarrow> (j - 1) div 2 \<noteq> i \<Longrightarrow> ev_le ps (a ! ((j - 1) div 2)) (a ! j)"
    using inv by (simp add: down_inv_def)
  have d2: "\<And>j. 0 < j \<Longrightarrow> j < n \<Longrightarrow> (j - 1) div 2 = i \<Longrightarrow> 0 < i \<Longrightarrow>
             ev_le ps (a ! ((i - 1) div 2)) (a ! j)"
    using inv by (simp add: down_inv_def)
  have g1: "ev_le ps (?b ! ((j - 1) div 2)) (?b ! j)"
    if j: "0 < j" "j < n" "(j - 1) div 2 \<noteq> c" for j
  proof (cases "(j - 1) div 2 = i")
    case True
    have ji: "j \<noteq> i" using True parent_less [OF j(1)] by simp
    show ?thesis
    proof (cases "j = c")
      case True
      then show ?thesis using nth c ic cmp_neg_le [OF lt] by simp
    next
      case False
      then show ?thesis using nth True ji least [OF j(1,2) True] by simp
    qed
  next
    case pi: False
    have jc: "j \<noteq> c" using pi c by auto
    show ?thesis
    proof (cases "j = i")
      case True
      then have "0 < i" using j by simp
      then have "ev_le ps (a ! ((i - 1) div 2)) (a ! c)" using d2 [of c] c by simp
      then show ?thesis using nth True pi j ic by simp
    next
      case False
      then show ?thesis using nth pi j jc d1 [OF j(1,2) pi] by simp
    qed
  qed
  have g2: "ev_le ps (?b ! ((c - 1) div 2)) (?b ! j)"
    if j: "0 < j" "j < n" "(j - 1) div 2 = c" for j
  proof -
    have cj: "c < j" using j parent_less by blast
    have "ev_le ps (a ! c) (a ! j)" using d1 [of j] j ic by simp
    then show ?thesis using nth c cj ic by simp
  qed
  show ?thesis
    unfolding down_inv_def using g1 g2 by blast
qed

lemma bubbleDown_is_heap:
  "down_inv ps a n i \<Longrightarrow> n \<le> length a \<Longrightarrow> is_heap ps (bubbleDown ps a n i) n"
proof (induction "n - i" arbitrary: a i rule: less_induct)
  case less
  show ?case
  proof (cases "smallest_of ps a n i = i")
    case True
    have "is_heap ps a n"
      unfolding is_heap_def
    proof (intro allI impI)
      fix j assume j: "0 < j \<and> j < n"
      show "ev_le ps (a ! ((j - 1) div 2)) (a ! j)"
      proof (cases "(j - 1) div 2 = i")
        case pj: True
        then show ?thesis using smallest_of_idx [OF True] j by simp
      next
        case False
        then show ?thesis using less.prems(1) j by (simp add: down_inv_def)
      qed
    qed
    then show ?thesis using True by (subst bubbleDown_step) simp
  next
    case False
    define c where "c = smallest_of ps a n i"
    have cp: "c < n \<and> (c - 1) div 2 = i \<and> 0 < c \<and> compareEvents ps (a ! c) (a ! i) < 0 \<and>
         (\<forall>j. 0 < j \<and> j < n \<and> (j - 1) div 2 = i \<longrightarrow> ev_le ps (a ! c) (a ! j))"
      using smallest_of_child [of ps a n i c] False c_def by simp
    then have "down_inv ps (swapEvents a i c) n c"
      using down_inv_swap [OF less.prems(1,2), of c] by blast
    moreover have "i < c" using cp parent_less [of c] by blast
    then have "n - c < n - i" using cp by arith
    ultimately have "is_heap ps (bubbleDown ps (swapEvents a i c) n c) n"
      using less.hyps [of c "swapEvents a i c"] less.prems(2) by (simp add: swap_length)
    then show ?thesis using False c_def by (subst bubbleDown_step) simp
  qed
qed

lemma bubbleDown_mset:
  "i < n \<Longrightarrow> n \<le> length a \<Longrightarrow>
   mset (take n (bubbleDown ps a n i)) = mset (take n a) \<and>
   length (bubbleDown ps a n i) = length a"
proof (induction "n - i" arbitrary: a i rule: less_induct)
  case less
  show ?case
  proof (cases "smallest_of ps a n i = i")
    case True
    then show ?thesis by (subst (1 2) bubbleDown_step) simp
  next
    case False
    define c where "c = smallest_of ps a n i"
    have cp: "c < n \<and> (c - 1) div 2 = i \<and> 0 < c"
      using smallest_of_child [of ps a n i c] False c_def by simp
    have "i < c" using cp parent_less [of c] by blast
    then have lt: "n - c < n - i" using cp by arith
    have "mset (take n (bubbleDown ps (swapEvents a i c) n c)) = mset (take n (swapEvents a i c)) \<and>
          length (bubbleDown ps (swapEvents a i c) n c) = length (swapEvents a i c)"
      using less.hyps [OF lt] cp less.prems(2) by (simp add: swap_length)
    then show ?thesis
      using False c_def cp less.prems
      by (subst (1 2) bubbleDown_step) (simp add: swap_take_mset swap_length)
  qed
qed

lemma is_heap_min: "is_heap ps a n \<Longrightarrow> i < n \<Longrightarrow> ev_le ps (a ! 0) (a ! i)"
proof (induction i rule: less_induct)
  case (less i)
  show ?case
  proof (cases "i = 0")
    case True
    then show ?thesis by (simp add: ev_le_refl)
  next
    case False
    then have p: "(i - 1) div 2 < i" using parent_less by simp
    then have "ev_le ps (a ! 0) (a ! ((i - 1) div 2))"
      using less by simp
    moreover have "ev_le ps (a ! ((i - 1) div 2)) (a ! i)"
      using less.prems False by (simp add: is_heap_def)
    ultimately show ?thesis using ev_le_trans by blast
  qed
qed

lemma kind_before_val: "kind_before k k' \<longleftrightarrow> EventType_val k < EventType_val k'"
  by (cases k; cases k') simp_all

lemma EventType_val_inj: "EventType_val k = EventType_val k' \<longleftrightarrow> k = k'"
  by (cases k; cases k') simp_all

lemma cmp_neg_before: "compareEvents ps a b < 0 \<longleftrightarrow> event_before ps a b"
  using EventType_val_inj [of "etype a" "etype b"]
  by (auto simp: compareEvents_def event_before_def kind_before_val Let_def)

lemma ev_le_before: "ev_le ps a b \<longleftrightarrow> \<not> event_before ps b a"
  using cmp_neg_iff [of ps b a] cmp_neg_before [of ps b a] by blast

lemma heap_wf_init: "heap_wf ps (eventHeap_init cap)"
  by (simp add: heap_wf_def eventHeap_init_def is_heap_def)

lemma heap_events_init: "heap_events (eventHeap_init cap) = {#}"
  by (simp add: heap_events_def eventHeap_init_def)

lemma up_inv_append:
  assumes "is_heap ps a n" "n < length a"
  shows "up_inv ps (a[n := e]) (Suc n) n"
  unfolding up_inv_def
proof (intro conjI allI impI)
  fix j assume j: "0 < j \<and> j < Suc n \<and> j \<noteq> n"
  then have "(j - 1) div 2 < j" using parent_less by blast
  then show "ev_le ps (a[n := e] ! ((j - 1) div 2)) (a[n := e] ! j)"
    using assms j by (simp add: is_heap_def)
next
  fix j assume j: "0 < j \<and> j < Suc n \<and> (j - 1) div 2 = n \<and> 0 < n"
  then have "(j - 1) div 2 < j" using parent_less by blast
  then have False using j by simp
  then show "ev_le ps (a[n := e] ! ((n - 1) div 2)) (a[n := e] ! j)" ..
qed

lemma push_effect:
  assumes wf: "heap_wf ps mh" and room: "heap_size mh < heap_capacity mh"
  shows "fst (eventHeap_push ps mh e) = []"
    and "heap_wf ps (snd (eventHeap_push ps mh e))"
    and "heap_events (snd (eventHeap_push ps mh e)) = add_mset e (heap_events mh)"
    and "heap_capacity (snd (eventHeap_push ps mh e)) = heap_capacity mh"
    and "heap_size (snd (eventHeap_push ps mh e)) = heap_size mh + 1"
proof -
  let ?n = "heap_size mh" and ?a = "heapArray mh"
  let ?b = "bubbleUp ps (?a[?n := e]) ?n"
  have len: "?n < length ?a" using wf room by (simp add: heap_wf_def)
  have eq: "snd (eventHeap_push ps mh e) = mh\<lparr>heapArray := ?b, heap_size := ?n + 1\<rparr>"
    using room by (simp add: eventHeap_push_def)
  have up: "up_inv ps (?a[?n := e]) (Suc ?n) ?n"
    using wf len by (simp add: heap_wf_def up_inv_append)
  have h: "is_heap ps ?b (Suc ?n)"
    using bubbleUp_is_heap [OF up] len by simp
  have m: "mset (take (Suc ?n) ?b) = mset (take (Suc ?n) (?a[?n := e])) \<and>
           length ?b = length (?a[?n := e])"
    using bubbleUp_mset [of ?n "Suc ?n" "?a[?n := e]" ps] len by simp
  have t: "take (Suc ?n) (?a[?n := e]) = take ?n ?a @ [e]"
    using len by (simp add: take_Suc_conv_app_nth)
  show "fst (eventHeap_push ps mh e) = []"
    using room by (simp add: eventHeap_push_def)
  show "heap_wf ps (snd (eventHeap_push ps mh e))"
    using wf room h m by (simp add: eq heap_wf_def)
  show "heap_events (snd (eventHeap_push ps mh e)) = add_mset e (heap_events mh)"
    using m t by (simp add: eq heap_events_def)
  show "heap_capacity (snd (eventHeap_push ps mh e)) = heap_capacity mh"
    by (simp add: eq)
  show "heap_size (snd (eventHeap_push ps mh e)) = heap_size mh + 1"
    by (simp add: eq)
qed

lemma push_full_effect:
  "heap_capacity mh \<le> heap_size mh \<Longrightarrow>
   eventHeap_push ps mh e = ([''EventHeap overflow!''], mh)"
  by (simp add: eventHeap_push_def)

lemma down_inv_root:
  assumes "is_heap ps a (Suc n)"
  shows "down_inv ps (a[0 := x]) n 0"
  unfolding down_inv_def
proof (intro conjI allI impI)
  fix j assume j: "0 < j \<and> j < n \<and> (j - 1) div 2 \<noteq> 0"
  then show "ev_le ps (a[0 := x] ! ((j - 1) div 2)) (a[0 := x] ! j)"
    using assms by (simp add: is_heap_def)
qed simp

lemma heap_min_events:
  assumes "is_heap ps a n" "e \<in># mset (take n a)" "n \<le> length a"
  shows "ev_le ps (a ! 0) e"
proof -
  from assms(2) have "e \<in> set (take n a)" by simp
  then obtain i where "i < length (take n a)" "take n a ! i = e"
    by (auto simp: in_set_conv_nth)
  then have "i < n" "a ! i = e" using assms(3) by simp_all
  then show ?thesis using is_heap_min [OF assms(1)] by blast
qed

lemma pop_effect:
  assumes wf: "heap_wf ps mh" and ne: "0 < heap_size mh"
  shows "fst (eventHeap_pop ps mh) \<in># heap_events mh"
    and "heap_events (snd (eventHeap_pop ps mh)) = heap_events mh - {#fst (eventHeap_pop ps mh)#}"
    and "\<And>e. e \<in># heap_events mh \<Longrightarrow> ev_le ps (fst (eventHeap_pop ps mh)) e"
    and "heap_wf ps (snd (eventHeap_pop ps mh))"
    and "heap_capacity (snd (eventHeap_pop ps mh)) = heap_capacity mh"
    and "heap_size (snd (eventHeap_pop ps mh)) = heap_size mh - 1"
proof -
  let ?a = "heapArray mh"
  define n where "n = heap_size mh - 1"
  have sz: "heap_size mh = Suc n" using ne n_def by simp
  have len: "Suc n \<le> length ?a" using wf sz by (simp add: heap_wf_def)
  have hp: "is_heap ps ?a (Suc n)" using wf sz by (simp add: heap_wf_def)
  have top: "fst (eventHeap_pop ps mh) = ?a ! 0"
    using ne by (simp add: eventHeap_pop_def Let_def)
  let ?b = "bubbleDown ps (?a[0 := ?a ! n]) n 0"
  have eq: "snd (eventHeap_pop ps mh) =
      (if 0 < n then mh\<lparr>heapArray := ?b, heap_size := n\<rparr> else mh\<lparr>heap_size := n\<rparr>)"
    using ne n_def by (simp add: eventHeap_pop_def Let_def)
  have tk: "take (Suc n) ?a = take n ?a @ [?a ! n]"
    using len by (simp add: take_Suc_conv_app_nth)
  show "fst (eventHeap_pop ps mh) \<in># heap_events mh"
    using len by (simp add: top heap_events_def sz in_set_conv_nth) (metis nth_take zero_less_Suc length_take min.absorb2)
  show "\<And>e. e \<in># heap_events mh \<Longrightarrow> ev_le ps (fst (eventHeap_pop ps mh)) e"
    using heap_min_events [OF hp _ len] by (simp add: top heap_events_def sz)
  show "heap_capacity (snd (eventHeap_pop ps mh)) = heap_capacity mh"
    by (simp add: eq)
  show "heap_size (snd (eventHeap_pop ps mh)) = heap_size mh - 1"
    by (simp add: eq n_def)
  show "heap_events (snd (eventHeap_pop ps mh)) = heap_events mh - {#fst (eventHeap_pop ps mh)#}"
  proof (cases "0 < n")
    case True
    have "mset (take n ?b) = mset (take n (?a[0 := ?a ! n]))"
      using bubbleDown_mset [of 0 n "?a[0 := ?a ! n]" ps] True len by simp
    also have "\<dots> = mset ((take n ?a)[0 := ?a ! n])"
      by (simp add: take_update_swap)
    also have "\<dots> = add_mset (?a ! n) (mset (take n ?a) - {#?a ! 0#})"
      using True len by (simp add: mset_update)
    also have "\<dots> = mset (take (Suc n) ?a) - {#?a ! 0#}"
    proof -
      have "?a ! 0 \<in># mset (take n ?a)"
        using True len by (simp add: in_set_conv_nth) (metis nth_take length_take min.absorb2 Suc_leD)
      then show ?thesis by (simp add: tk)
    qed
    finally show ?thesis using True by (simp add: eq top heap_events_def sz)
  next
    case False
    then have n0: "n = 0" by simp
    have "take (Suc 0) ?a = [?a ! 0]"
      using tk n0 by simp
    then show ?thesis using n0
      by (simp add: eq top heap_events_def sz)
  qed
  show "heap_wf ps (snd (eventHeap_pop ps mh))"
  proof (cases "0 < n")
    case True
    have "is_heap ps ?b n"
      using bubbleDown_is_heap [OF down_inv_root [OF hp]] len by simp
    moreover have "length ?b = length ?a"
      using bubbleDown_mset [of 0 n "?a[0 := ?a ! n]" ps] True len by simp
    ultimately show ?thesis using True wf sz by (simp add: eq heap_wf_def)
  next
    case False
    then show ?thesis using wf by (simp add: eq heap_wf_def is_heap_def)
  qed
qed

lemma heap_trace_inv:
  "heap_trace ps cap mh M \<Longrightarrow> heap_wf ps mh \<and> heap_events mh = M"
proof (induction rule: heap_trace.induct)
  case trace_init
  show ?case by (simp add: heap_wf_init heap_events_init)
next
  case (trace_push mh M e)
  then show ?case using push_effect(2,3) [of ps mh e] by simp
next
  case (trace_push_full mh M e)
  then show ?case by (simp add: push_full_effect)
next
  case (trace_pop mh M)
  then show ?case using pop_effect(2,4) [of ps mh] by (simp add: eventHeap_empty_def)
qed

text \<open>
  Claim C2. Start from the empty heap and push and pop in any order; let \<open>M\<close> be the
  multiset of the events pushed and not yet popped (a push into a full heap is refused
  and leaves \<open>M\<close> as it is). Then the heap is empty exactly when \<open>M\<close> is, and a pop
  returns a member of \<open>M\<close> that no member of \<open>M\<close> is before, where \<open>event_before\<close>
  orders by time, then by kind with ARRIVAL before CPU_COMPLETE before CPU_TIMEOUT, then
  by the external identifier of the process. \<open>event_before\<close> is irreflexive and
  transitive, and two events that it does not order agree in time, kind and identifier.
\<close>

theorem pop_returns_minimum:
  assumes "heap_trace ps cap mh M"
  shows "(eventHeap_empty mh \<longleftrightarrow> M = {#}) \<and>
         (\<not> eventHeap_empty mh \<longrightarrow>
            fst (eventHeap_pop ps mh) \<in># M \<and>
            (\<forall>e \<in># M. \<not> event_before ps e (fst (eventHeap_pop ps mh)))) \<and>
         (\<forall>a b c. \<not> event_before ps a a \<and>
            (event_before ps a b \<longrightarrow> event_before ps b c \<longrightarrow> event_before ps a c) \<and>
            (event_before ps a b \<or> event_before ps b a \<or>
             (time a = time b \<and> etype a = etype b \<and>
              pcb_id (ps ! nat (pid a)) = pcb_id (ps ! nat (pid b)))))"
proof -
  have inv: "heap_wf ps mh" "heap_events mh = M"
    using heap_trace_inv [OF assms] by simp_all
  have e: "eventHeap_empty mh \<longleftrightarrow> M = {#}"
    using inv by (auto simp: eventHeap_empty_def heap_events_def heap_wf_def)
  have p: "fst (eventHeap_pop ps mh) \<in># M \<and>
           (\<forall>e \<in># M. \<not> event_before ps e (fst (eventHeap_pop ps mh)))"
    if "\<not> eventHeap_empty mh"
    using that pop_effect(1,3) [OF inv(1)] inv(2) ev_le_before
    by (auto simp: eventHeap_empty_def)
  have o1: "\<not> event_before ps a a" for a
    by (simp add: event_before_def kind_before_val)
  have o2: "event_before ps a b \<Longrightarrow> event_before ps b c \<Longrightarrow> event_before ps a c" for a b c
    using cmp_neg_trans [of ps a b c] by (simp add: cmp_neg_before)
  have o3: "event_before ps a b \<or> event_before ps b a \<or>
       (time a = time b \<and> etype a = etype b \<and>
        pcb_id (ps ! nat (pid a)) = pcb_id (ps ! nat (pid b)))" for a b
    by (cases "etype a"; cases "etype b") (auto simp: event_before_def)
  show ?thesis using e p o1 o2 o3 by blast
qed

subsection \<open>The ready queue is a FIFO\<close>

lemma smod_nonneg: "0 \<le> a \<Longrightarrow> 0 < b \<Longrightarrow> a smod b = a mod (b::int)"
  by (simp add: smod_int_alt_def sgn_if)

lemma rq_wf_init: "0 < c \<Longrightarrow> rq_wf (RQ_init c)"
  by (simp add: rq_wf_def RQ_init_def)

lemma rq_list_init: "rq_list (RQ_init c) = []"
  by (simp add: rq_list_def RQ_init_def)

lemma length_rq_list: "length (rq_list q) = rq_count q"
  by (simp add: rq_list_def)

lemma mod_neq_in_window:
  assumes "k < c" "(c::nat) < cap"
  shows "(f + k) mod cap \<noteq> (f + c) mod cap"
proof
  assume "(f + k) mod cap = (f + c) mod cap"
  then have "(f + c - (f + k)) mod cap = 0"
    using assms by (metis add_le_cancel_left less_imp_le_nat mod_eq_dvd_iff_nat dvd_eq_mod_eq_0)
  then have "(c - k) mod cap = 0" by simp
  moreover have "0 < c - k" "c - k < cap" using assms by auto
  ultimately show False by simp
qed

lemma enqueue_effect:
  assumes wf: "rq_wf q" and room: "rq_count q < rq_capacity q"
  shows "fst (RQ_enqueue ps q p t) = []"
    and "rq_wf (fst (snd (RQ_enqueue ps q p t)))"
    and "rq_list (fst (snd (RQ_enqueue ps q p t))) = rq_list q @ [p]"
    and "rq_capacity (fst (snd (RQ_enqueue ps q p t))) = rq_capacity q"
    and "rq_count (fst (snd (RQ_enqueue ps q p t))) = rq_count q + 1"
    and "snd (snd (RQ_enqueue ps q p t)) = ps[nat p := (ps ! nat p)\<lparr>last_ready_time := t\<rparr>]"
proof -
  let ?cap = "rq_capacity q"
  define r where "r = (rq_front q + rq_count q) mod ?cap"
  have cap: "0 < ?cap" using wf by (simp add: rq_wf_def)
  have rr: "(rq_rear q + 1) smod int ?cap = int r"
    using wf cap by (simp add: rq_wf_def r_def smod_nonneg)
  have rlt: "r < ?cap" using cap by (simp add: r_def)
  let ?q' = "q\<lparr>rq_rear := int r, rq_data := (rq_data q)[r := p], rq_count := rq_count q + 1\<rparr>"
  have eq: "RQ_enqueue ps q p t = ([], ?q', ps[nat p := (ps ! nat p)\<lparr>last_ready_time := t\<rparr>])"
    using room rr by (simp add: RQ_enqueue_def Let_def)
  show "fst (RQ_enqueue ps q p t) = []" by (simp add: eq)
  show "rq_capacity (fst (snd (RQ_enqueue ps q p t))) = rq_capacity q" by (simp add: eq)
  show "rq_count (fst (snd (RQ_enqueue ps q p t))) = rq_count q + 1" by (simp add: eq)
  show "snd (snd (RQ_enqueue ps q p t)) = ps[nat p := (ps ! nat p)\<lparr>last_ready_time := t\<rparr>]"
    by (simp add: eq)
  have "(int r + 1) mod int ?cap = int ((rq_front q + (rq_count q + 1)) mod ?cap)"
  proof -
    have "(int r + 1) mod int ?cap = int ((r + 1) mod ?cap)"
      by (simp add: zmod_int ac_simps)
    also have "(r + 1) mod ?cap = (rq_front q + rq_count q + 1) mod ?cap"
      unfolding r_def by (simp add: mod_Suc_eq)
    finally show ?thesis by (simp add: add.assoc)
  qed
  then show "rq_wf (fst (snd (RQ_enqueue ps q p t)))"
    using wf room by (simp add: eq rq_wf_def)
  have old: "(rq_data q)[r := p] ! ((rq_front q + k) mod ?cap) = rq_data q ! ((rq_front q + k) mod ?cap)"
    if "k < rq_count q" for k
    using mod_neq_in_window [OF that room, of "rq_front q"] wf
    by (simp add: r_def rq_wf_def)
  have new: "(rq_data q)[r := p] ! r = p"
    using rlt wf by (simp add: rq_wf_def)
  show "rq_list (fst (snd (RQ_enqueue ps q p t))) = rq_list q @ [p]"
    using old new by (simp add: eq rq_list_def r_def)
qed

lemma enqueue_full_effect:
  "rq_count q = rq_capacity q \<Longrightarrow> RQ_enqueue ps q p t = ([''ReadyQueue overflow!''], q, ps)"
  by (simp add: RQ_enqueue_def)

lemma dequeue_effect:
  assumes wf: "rq_wf q" and ne: "0 < rq_count q"
  shows "fst (RQ_dequeue q) = hd (rq_list q)"
    and "rq_list (snd (RQ_dequeue q)) = tl (rq_list q)"
    and "rq_wf (snd (RQ_dequeue q))"
    and "rq_capacity (snd (RQ_dequeue q)) = rq_capacity q"
    and "rq_count (snd (RQ_dequeue q)) = rq_count q - 1"
proof -
  let ?cap = "rq_capacity q"
  let ?q' = "q\<lparr>rq_front := (rq_front q + 1) mod ?cap, rq_count := rq_count q - 1\<rparr>"
  have eq: "RQ_dequeue q = (rq_data q ! rq_front q, ?q')"
    using ne by (simp add: RQ_dequeue_def RQ_isEmpty_def)
  have cap: "0 < ?cap" "rq_front q < ?cap" using wf by (simp_all add: rq_wf_def)
  obtain c where c: "rq_count q = Suc c" using ne by (cases "rq_count q") auto
  have up: "[0..<Suc c] = 0 # map Suc [0..<c]"
    by (simp add: upt_conv_Cons map_Suc_upt del: upt_Suc)
  show "fst (RQ_dequeue q) = hd (rq_list q)"
    using cap by (simp add: eq rq_list_def c up del: upt_Suc)
  have "((rq_front q + 1) mod ?cap + k) mod ?cap = (rq_front q + Suc k) mod ?cap" for k
    by (simp add: mod_add_left_eq)
  then show "rq_list (snd (RQ_dequeue q)) = tl (rq_list q)"
    by (simp add: eq rq_list_def c up comp_def del: upt_Suc)
  show "rq_capacity (snd (RQ_dequeue q)) = rq_capacity q" by (simp add: eq)
  show "rq_count (snd (RQ_dequeue q)) = rq_count q - 1" by (simp add: eq)
  have "((rq_front q + 1) mod ?cap + (rq_count q - 1)) mod ?cap = (rq_front q + rq_count q) mod ?cap"
    using ne by (simp add: mod_add_left_eq c)
  moreover have "rq_count q - 1 \<le> ?cap" using wf unfolding rq_wf_def by arith
  moreover have "(rq_front q + 1) mod ?cap < ?cap" using cap by simp
  ultimately show "rq_wf (snd (RQ_dequeue q))"
    using wf by (simp add: eq rq_wf_def)
qed

subsection \<open>Effect of each statement block on the state\<close>

lemma cmp_same_ids:
  "\<forall>j. pcb_id (ps' ! j) = pcb_id (ps ! j) \<Longrightarrow> compareEvents ps' a b = compareEvents ps a b"
  by (simp add: compareEvents_def)

lemma heap_wf_same_ids:
  assumes "\<forall>j. pcb_id (ps' ! j) = pcb_id (ps ! j)"
  shows "heap_wf ps' mh = heap_wf ps mh"
proof -
  have "compareEvents ps' = compareEvents ps"
    using cmp_same_ids [OF assms] by (intro ext)
  then show ?thesis by (simp add: heap_wf_def is_heap_def ev_le_def)
qed

lemma pcb_id_update:
  "pcb_id x = pcb_id (ps ! i) \<Longrightarrow> pcb_id (ps[i := x] ! j) = pcb_id (ps ! j)"
  by (cases "i < length ps") (auto simp: nth_list_update list_update_beyond)

lemma heap_wf_update:
  "pcb_id x = pcb_id (ps ! i) \<Longrightarrow> heap_wf (ps[i := x]) mh = heap_wf ps mh"
  by (rule heap_wf_same_ids) (simp add: pcb_id_update)

lemma heap_size_events: "heap_wf ps mh \<Longrightarrow> size (heap_events mh) = heap_size mh"
  by (simp add: heap_wf_def heap_events_def)

lemma sim_push_eq:
  "heap_size (eventQ s) < heap_capacity (eventQ s) \<Longrightarrow>
   sim_push s e = s\<lparr>eventQ := snd (eventHeap_push (g_processes s) (eventQ s) e)\<rparr>"
  by (simp add: sim_push_def eventHeap_push_def)

lemma sim_enqueue_eq:
  "rq_wf (readyQ s) \<Longrightarrow> rq_count (readyQ s) < rq_capacity (readyQ s) \<Longrightarrow>
   sim_enqueue s p t =
     s\<lparr>readyQ := fst (snd (RQ_enqueue (g_processes s) (readyQ s) p t)),
       g_processes := (g_processes s)[nat p := (g_processes s ! nat p)\<lparr>last_ready_time := t\<rparr>]\<rparr>"
  using enqueue_effect(1,6) [of "readyQ s" "g_processes s" p t]
  by (simp add: sim_enqueue_def split_def)

lemma cpu_release_eq:
  assumes i: "nat p < length (g_processes s)"
  shows "cpu_release s p =
     s\<lparr>g_processes := (g_processes s)[nat p := released_pcb (g_processes s ! nat p) (current_time s)],
       cpu_busy_until := (if current_time s < cpu_busy_until s then current_time s
                          else cpu_busy_until s),
       running_pid := - 1\<rparr>"
proof (cases "remaining_cpu (g_processes s ! nat p)
                - (if current_time s - start_run_time (g_processes s ! nat p) < 0 then 0
                   else current_time s - start_run_time (g_processes s ! nat p)) < 0")
  case True
  then show ?thesis
    using i by (simp add: cpu_release_def upd_pcb_def released_pcb_def Let_def)
next
  case False
  then show ?thesis
    using i by (simp add: cpu_release_def upd_pcb_def released_pcb_def Let_def)
qed

lemma burst_done_exit_eq:
  "nat p < length (g_processes s) \<Longrightarrow>
   num_bursts (g_processes s ! nat p) \<le> current_burst (g_processes s ! nat p) + 1 \<Longrightarrow>
   burst_done s p =
     s\<lparr>g_processes := (g_processes s)[nat p := (g_processes s ! nat p)\<lparr>finish_time := current_time s\<rparr>],
       finished_count := finished_count s + 1,
       stdout := stdout s @
         [print_per_process_metrics
            ((g_processes s)[nat p := (g_processes s ! nat p)\<lparr>finish_time := current_time s\<rparr>])
            (current_time s) p]\<rparr>"
  by (simp add: burst_done_def upd_pcb_def Let_def)

lemma burst_done_io_eq:
  "nat p < length (g_processes s) \<Longrightarrow>
   current_burst (g_processes s ! nat p) + 1 < num_bursts (g_processes s ! nat p) \<Longrightarrow>
   heap_size (eventQ s) < heap_capacity (eventQ s) \<Longrightarrow>
   burst_done s p =
     s\<lparr>eventQ := snd (eventHeap_push (g_processes s) (eventQ s)
          \<lparr>time = current_time s +
                  io_bursts (g_processes s ! nat p) ! nat (current_burst (g_processes s ! nat p)),
           etype = EVT_ARRIVE, pid = p\<rparr>),
       g_processes := (g_processes s)
         [nat p := (g_processes s ! nat p)
            \<lparr>current_burst := current_burst (g_processes s ! nat p) + 1,
             remaining_cpu := cpu_bursts (g_processes s ! nat p) !
                                nat (current_burst (g_processes s ! nat p) + 1)\<rparr>],
       vlog := vlog s @
         [V_io_return (current_time s) (pcb_id (g_processes s ! nat p))
            (current_time s +
             io_bursts (g_processes s ! nat p) ! nat (current_burst (g_processes s ! nat p)))]\<rparr>"
  by (simp add: burst_done_def upd_pcb_def Let_def sim_push_eq)

lemma schedule_next_busy: "0 \<le> running_pid s \<Longrightarrow> schedule_next s now q = s"
  by (simp add: schedule_next_def)

lemma schedule_next_idle:
  "running_pid s < 0 \<Longrightarrow> rq_count (readyQ s) = 0 \<Longrightarrow> schedule_next s now q = s"
  by (simp add: schedule_next_def RQ_isEmpty_def)

lemma schedule_next_eq:
  assumes "running_pid s < 0" "0 < rq_count (readyQ s)"
    and "nat (rq_data (readyQ s) ! rq_front (readyQ s)) < length (g_processes s)"
    and "heap_size (eventQ s) < heap_capacity (eventQ s)"
  shows "schedule_next s now q =
     (let p = rq_data (readyQ s) ! rq_front (readyQ s);
          pcb = dispatched_pcb (g_processes s ! nat p) now;
          ps = (g_processes s)[nat p := pcb]
      in s\<lparr>readyQ := snd (RQ_dequeue (readyQ s)),
           g_processes := ps,
           cpu_idle_time := (if now > cpu_busy_until s
                             then cpu_idle_time s + (now - cpu_busy_until s)
                             else cpu_idle_time s),
           running_pid := p,
           running_end_time := now + min (remaining_cpu pcb) q,
           cpu_busy_until := now + min (remaining_cpu pcb) q,
           vlog := vlog s @ [V_scheduled now (pcb_id pcb) (min (remaining_cpu pcb) q)],
           eventQ := snd (eventHeap_push ps (eventQ s) (dispatch_event pcb p now q))\<rparr>)"
  using assms
  by (simp add: schedule_next_def RQ_isEmpty_def RQ_dequeue_def upd_pcb_def Let_def
      sim_push_eq dispatched_pcb_def dispatch_event_def min_def)

lemma loop_body_eq:
  "loop_body q s =
     (case etype (popped s) of
        EVT_ARRIVE \<Rightarrow> case_EVT_ARRIVE q (after_pop s) (popped s)
      | EVT_CPU_COMPLETE \<Rightarrow> case_EVT_CPU_COMPLETE q (after_pop s) (popped s)
      | EVT_CPU_TIMEOUT \<Rightarrow> case_EVT_CPU_TIMEOUT q (after_pop s) (popped s))"
  by (simp add: loop_body_def popped_def after_pop_def split_def Let_def split: EventType.split)

lemma struct_wfD:
  assumes "struct_wf s"
  shows "0 < g_numProcs s" "length (g_processes s) = nat (g_numProcs s)"
    "heap_wf (g_processes s) (eventQ s)" "heap_capacity (eventQ s) = nat (g_numProcs s * 4)"
    "rq_wf (readyQ s)" "rq_capacity (readyQ s) = nat (g_numProcs s + 10)"
    "\<And>e. e \<in># heap_events (eventQ s) \<Longrightarrow> 0 \<le> pid e \<and> pid e < g_numProcs s"
    "\<And>p. p \<in> set (rq_list (readyQ s)) \<Longrightarrow> 0 \<le> p \<and> p < g_numProcs s"
  using assms by (simp_all add: struct_wf_def)

lemma pid_index: "0 \<le> p \<Longrightarrow> p < n \<Longrightarrow> nat p < nat n"
  by simp

lemma after_pop_effect:
  assumes wf: "struct_wf s" and ne: "\<not> eventHeap_empty (eventQ s)"
  shows "struct_wf (after_pop s)"
    and "popped s \<in># heap_events (eventQ s)"
    and "heap_events (eventQ (after_pop s)) = heap_events (eventQ s) - {#popped s#}"
    and "\<And>e. e \<in># heap_events (eventQ s) \<Longrightarrow> ev_le (g_processes s) (popped s) e"
    and "readyQ (after_pop s) = readyQ s"
    and "g_processes (after_pop s) = g_processes s"
    and "g_numProcs (after_pop s) = g_numProcs s"
    and "running_pid (after_pop s) = running_pid s"
    and "finished_count (after_pop s) = finished_count s"
    and "stderr (after_pop s) = stderr s"
    and "current_time (after_pop s) = time (popped s)"
proof -
  note d = struct_wfD [OF wf]
  have sz: "0 < heap_size (eventQ s)" using ne by (simp add: eventHeap_empty_def)
  note pe = pop_effect [OF d(3) sz]
  show "popped s \<in># heap_events (eventQ s)" using pe(1) by (simp add: popped_def)
  show ev: "heap_events (eventQ (after_pop s)) = heap_events (eventQ s) - {#popped s#}"
    using pe(2) by (simp add: popped_def after_pop_def)
  show "\<And>e. e \<in># heap_events (eventQ s) \<Longrightarrow> ev_le (g_processes s) (popped s) e"
    using pe(3) by (simp add: popped_def)
  have "\<And>e. e \<in># heap_events (eventQ s) - {#popped s#} \<Longrightarrow> 0 \<le> pid e \<and> pid e < g_numProcs s"
    using d(7) by (meson in_diffD)
  then show "struct_wf (after_pop s)"
    using d pe(4,5) ev by (simp add: struct_wf_def) (simp add: after_pop_def)
qed (simp_all add: after_pop_def)

lemma sim_enqueue_effect:
  assumes wf: "struct_wf s" and room: "rq_count (readyQ s) < rq_capacity (readyQ s)"
    and p: "0 \<le> p" "p < g_numProcs s"
  shows "struct_wf (sim_enqueue s p t)"
    and "rq_list (readyQ (sim_enqueue s p t)) = rq_list (readyQ s) @ [p]"
    and "eventQ (sim_enqueue s p t) = eventQ s"
    and "g_processes (sim_enqueue s p t) =
           (g_processes s)[nat p := (g_processes s ! nat p)\<lparr>last_ready_time := t\<rparr>]"
    and "g_numProcs (sim_enqueue s p t) = g_numProcs s"
    and "running_pid (sim_enqueue s p t) = running_pid s"
    and "finished_count (sim_enqueue s p t) = finished_count s"
    and "stderr (sim_enqueue s p t) = stderr s"
    and "current_time (sim_enqueue s p t) = current_time s"
proof -
  note d = struct_wfD [OF wf]
  note eq = sim_enqueue_eq [OF d(5) room, of p t]
  note ee = enqueue_effect [OF d(5) room, of "g_processes s" p t]
  show "rq_list (readyQ (sim_enqueue s p t)) = rq_list (readyQ s) @ [p]"
    using ee(3) by (simp add: eq)
  have "heap_wf ((g_processes s)[nat p := (g_processes s ! nat p)\<lparr>last_ready_time := t\<rparr>]) (eventQ s)"
    using d(3) by (simp add: heap_wf_update)
  then show "struct_wf (sim_enqueue s p t)"
    using d ee(2,3,4) p by (auto simp: eq struct_wf_def)
qed (simp_all add: sim_enqueue_eq [OF struct_wfD(5) [OF wf] room])

lemma cpu_release_effect:
  assumes wf: "struct_wf s" and p: "0 \<le> p" "p < g_numProcs s"
  shows "struct_wf (cpu_release s p)"
    and "eventQ (cpu_release s p) = eventQ s"
    and "readyQ (cpu_release s p) = readyQ s"
    and "g_processes (cpu_release s p) =
           (g_processes s)[nat p := released_pcb (g_processes s ! nat p) (current_time s)]"
    and "g_numProcs (cpu_release s p) = g_numProcs s"
    and "running_pid (cpu_release s p) = - 1"
    and "finished_count (cpu_release s p) = finished_count s"
    and "stderr (cpu_release s p) = stderr s"
    and "current_time (cpu_release s p) = current_time s"
proof -
  note d = struct_wfD [OF wf]
  have i: "nat p < length (g_processes s)" using d(2) p by simp
  note eq = cpu_release_eq [OF i]
  have "heap_wf ((g_processes s)[nat p := released_pcb (g_processes s ! nat p) (current_time s)]) (eventQ s)"
    using d(3) by (simp add: heap_wf_update released_pcb_def)
  then show "struct_wf (cpu_release s p)"
    using d by (simp add: eq struct_wf_def)
qed (simp_all add: cpu_release_eq [OF pid_index [OF p, folded struct_wfD(2) [OF wf]]])

lemma burst_done_exit_effect:
  assumes wf: "struct_wf s" and p: "0 \<le> p" "p < g_numProcs s"
    and last: "num_bursts (g_processes s ! nat p) \<le> current_burst (g_processes s ! nat p) + 1"
  shows "struct_wf (burst_done s p)"
    and "eventQ (burst_done s p) = eventQ s"
    and "readyQ (burst_done s p) = readyQ s"
    and "g_processes (burst_done s p) =
           (g_processes s)[nat p := (g_processes s ! nat p)\<lparr>finish_time := current_time s\<rparr>]"
    and "g_numProcs (burst_done s p) = g_numProcs s"
    and "running_pid (burst_done s p) = running_pid s"
    and "finished_count (burst_done s p) = finished_count s + 1"
    and "stderr (burst_done s p) = stderr s"
    and "current_time (burst_done s p) = current_time s"
proof -
  note d = struct_wfD [OF wf]
  have i: "nat p < length (g_processes s)" using d(2) p by simp
  note eq = burst_done_exit_eq [OF i last]
  have "heap_wf ((g_processes s)[nat p := (g_processes s ! nat p)\<lparr>finish_time := current_time s\<rparr>]) (eventQ s)"
    using d(3) by (simp add: heap_wf_update)
  then show "struct_wf (burst_done s p)"
    using d by (simp add: eq struct_wf_def)
qed (simp_all add: burst_done_exit_eq [OF pid_index [OF p, folded struct_wfD(2) [OF wf]] last])

lemma burst_done_io_effect:
  assumes wf: "struct_wf s" and p: "0 \<le> p" "p < g_numProcs s"
    and more: "current_burst (g_processes s ! nat p) + 1 < num_bursts (g_processes s ! nat p)"
    and room: "heap_size (eventQ s) < heap_capacity (eventQ s)"
  shows "struct_wf (burst_done s p)"
    and "heap_events (eventQ (burst_done s p)) =
           add_mset \<lparr>time = current_time s +
                        io_bursts (g_processes s ! nat p) !
                          nat (current_burst (g_processes s ! nat p)),
                     etype = EVT_ARRIVE, pid = p\<rparr>
             (heap_events (eventQ s))"
    and "readyQ (burst_done s p) = readyQ s"
    and "g_processes (burst_done s p) =
           (g_processes s)
             [nat p := (g_processes s ! nat p)
                \<lparr>current_burst := current_burst (g_processes s ! nat p) + 1,
                 remaining_cpu := cpu_bursts (g_processes s ! nat p) !
                                    nat (current_burst (g_processes s ! nat p) + 1)\<rparr>]"
    and "g_numProcs (burst_done s p) = g_numProcs s"
    and "running_pid (burst_done s p) = running_pid s"
    and "finished_count (burst_done s p) = finished_count s"
    and "stderr (burst_done s p) = stderr s"
    and "current_time (burst_done s p) = current_time s"
proof -
  note d = struct_wfD [OF wf]
  have i: "nat p < length (g_processes s)" using d(2) p by simp
  note eq = burst_done_io_eq [OF i more room]
  let ?e = "\<lparr>time = current_time s +
                 io_bursts (g_processes s ! nat p) ! nat (current_burst (g_processes s ! nat p)),
             etype = EVT_ARRIVE, pid = p\<rparr>"
  note pe = push_effect [OF d(3) room, of ?e]
  show ev: "heap_events (eventQ (burst_done s p)) = add_mset ?e (heap_events (eventQ s))"
    using pe(3) by (simp add: eq)
  have "heap_wf ((g_processes s)
             [nat p := (g_processes s ! nat p)
                \<lparr>current_burst := current_burst (g_processes s ! nat p) + 1,
                 remaining_cpu := cpu_bursts (g_processes s ! nat p) !
                                    nat (current_burst (g_processes s ! nat p) + 1)\<rparr>])
          (snd (eventHeap_push (g_processes s) (eventQ s) ?e))"
    using pe(2) by (simp add: heap_wf_update)
  moreover have "\<And>e. e \<in># add_mset ?e (heap_events (eventQ s)) \<Longrightarrow> 0 \<le> pid e \<and> pid e < g_numProcs s"
    using d(7) p by auto
  ultimately show "struct_wf (burst_done s p)"
    using d pe(4) ev p by (simp add: struct_wf_def) (simp add: eq)
qed (simp_all add: burst_done_io_eq [OF pid_index [OF p, folded struct_wfD(2) [OF wf]] more room])

lemma rq_front_hd:
  "rq_wf q \<Longrightarrow> 0 < rq_count q \<Longrightarrow> rq_data q ! rq_front q = hd (rq_list q)"
  using dequeue_effect(1) [of q] by (simp add: RQ_dequeue_def RQ_isEmpty_def)

lemma rq_list_nonempty: "rq_list q \<noteq> [] \<longleftrightarrow> 0 < rq_count q"
  using length_rq_list [of q] by (cases "rq_list q") auto

lemma schedule_next_dispatch_effect:
  fixes s :: sim and now q :: int
  assumes wf: "struct_wf s" and idle: "running_pid s < 0"
    and ne: "rq_list (readyQ s) \<noteq> []"
    and room: "heap_size (eventQ s) < heap_capacity (eventQ s)"
  defines "p \<equiv> hd (rq_list (readyQ s))"
  defines "pcb \<equiv> dispatched_pcb (g_processes s ! nat p) now"
  shows "struct_wf (schedule_next s now q)"
    and "heap_events (eventQ (schedule_next s now q)) =
           add_mset (dispatch_event pcb p now q) (heap_events (eventQ s))"
    and "rq_list (readyQ (schedule_next s now q)) = tl (rq_list (readyQ s))"
    and "g_processes (schedule_next s now q) = (g_processes s)[nat p := pcb]"
    and "g_numProcs (schedule_next s now q) = g_numProcs s"
    and "running_pid (schedule_next s now q) = p"
    and "finished_count (schedule_next s now q) = finished_count s"
    and "stderr (schedule_next s now q) = stderr s"
    and "current_time (schedule_next s now q) = current_time s"
proof -
  note d = struct_wfD [OF wf]
  have cnt: "0 < rq_count (readyQ s)" using ne by (simp add: rq_list_nonempty)
  have fr: "rq_data (readyQ s) ! rq_front (readyQ s) = p"
    using rq_front_hd [OF d(5) cnt] by (simp add: p_def)
  have pin: "p \<in> set (rq_list (readyQ s))" using ne by (simp add: p_def)
  have pr: "0 \<le> p" "p < g_numProcs s" using d(8) [OF pin] by simp_all
  have i: "nat p < length (g_processes s)" using d(2) pr by simp
  have eq: "schedule_next s now q =
      s\<lparr>readyQ := snd (RQ_dequeue (readyQ s)),
        g_processes := (g_processes s)[nat p := pcb],
        cpu_idle_time := (if now > cpu_busy_until s
                          then cpu_idle_time s + (now - cpu_busy_until s)
                          else cpu_idle_time s),
        running_pid := p,
        running_end_time := now + min (remaining_cpu pcb) q,
        cpu_busy_until := now + min (remaining_cpu pcb) q,
        vlog := vlog s @ [V_scheduled now (pcb_id pcb) (min (remaining_cpu pcb) q)],
        eventQ := snd (eventHeap_push ((g_processes s)[nat p := pcb]) (eventQ s)
                        (dispatch_event pcb p now q))\<rparr>"
    using schedule_next_eq [OF idle cnt _ room, of now q] i
    by (simp add: fr Let_def pcb_def)
  note de = dequeue_effect [OF d(5) cnt]
  have hw: "heap_wf ((g_processes s)[nat p := pcb]) (eventQ s)"
    using d(3) by (simp add: heap_wf_update pcb_def dispatched_pcb_def)
  note pe = push_effect [OF hw room, of "dispatch_event pcb p now q"]
  show "heap_events (eventQ (schedule_next s now q)) =
           add_mset (dispatch_event pcb p now q) (heap_events (eventQ s))"
    using pe(3) by (simp add: eq)
  show "rq_list (readyQ (schedule_next s now q)) = tl (rq_list (readyQ s))"
    using de(2) by (simp add: eq)
  show "g_processes (schedule_next s now q) = (g_processes s)[nat p := pcb]"
    by (simp add: eq)
  show "g_numProcs (schedule_next s now q) = g_numProcs s" by (simp add: eq)
  show "running_pid (schedule_next s now q) = p" by (simp add: eq)
  show "finished_count (schedule_next s now q) = finished_count s" by (simp add: eq)
  show "stderr (schedule_next s now q) = stderr s" by (simp add: eq)
  show "current_time (schedule_next s now q) = current_time s" by (simp add: eq)
  have "\<And>e. e \<in># add_mset (dispatch_event pcb p now q) (heap_events (eventQ s)) \<Longrightarrow>
          0 \<le> pid e \<and> pid e < g_numProcs s"
    using d(7) pr by (auto simp: dispatch_event_def)
  moreover have "\<And>x. x \<in> set (tl (rq_list (readyQ s))) \<Longrightarrow> 0 \<le> x \<and> x < g_numProcs s"
    using d(8) by (meson list.set_sel(2) ne)
  ultimately show "struct_wf (schedule_next s now q)"
    using d pe(2,3,4) de(2,3,4) pr by (simp add: struct_wf_def) (simp add: eq)
qed

lemma at_most_once_add:
  "at_most_once (add_mset x M) \<longleftrightarrow> x \<notin># M \<and> at_most_once M"
proof
  assume a: "at_most_once (add_mset x M)"
  have "count (add_mset x M) x \<le> 1" using a unfolding at_most_once_def by blast
  then have "x \<notin># M" by (simp add: not_in_iff)
  moreover have "count M p \<le> 1" for p
  proof -
    have "count (add_mset x M) p \<le> 1" using a unfolding at_most_once_def by blast
    then show ?thesis by (simp split: if_splits)
  qed
  ultimately show "x \<notin># M \<and> at_most_once M" by (simp add: at_most_once_def)
next
  assume "x \<notin># M \<and> at_most_once M"
  then show "at_most_once (add_mset x M)"
    by (auto simp: at_most_once_def not_in_iff)
qed

lemma cpu_count_add:
  "cpu_count (add_mset e H) = (if etype e \<noteq> EVT_ARRIVE then Suc (cpu_count H) else cpu_count H)"
  by (simp add: cpu_count_def)

lemma abs_invD:
  assumes "abs_inv n H R run fin"
  shows "at_most_once (image_mset pid H + mset R)"
    and "int (size H) + int (length R) + fin = n" and "0 \<le> fin"
    and "run < 0 \<Longrightarrow> R = [] \<and> cpu_count H = 0"
    and "0 \<le> run \<Longrightarrow> cpu_count H = 1"
  using assms by (simp_all add: abs_inv_def)

lemma abs_invI:
  assumes "at_most_once (image_mset pid H + mset R)"
    and "int (size H) + int (length R) + fin = n" and "0 \<le> fin"
    and "run < 0 \<Longrightarrow> R = [] \<and> cpu_count H = 0"
    and "0 \<le> run \<Longrightarrow> cpu_count H = 1"
  shows "abs_inv n H R run fin"
  using assms by (simp add: abs_inv_def)

lemma abs_arrive_busy:
  assumes "abs_inv n (add_mset evt H) R run fin" "etype evt = EVT_ARRIVE" "0 \<le> run"
  shows "abs_inv n H (R @ [pid evt]) run fin"
proof (rule abs_invI)
  note d = abs_invD [OF assms(1)]
  show "at_most_once (image_mset pid H + mset (R @ [pid evt]))" using d(1) by simp
  show "int (size H) + int (length (R @ [pid evt])) + fin = n" using d(2) by simp
  show "0 \<le> fin" by (rule d(3))
  show "run < 0 \<Longrightarrow> R @ [pid evt] = [] \<and> cpu_count H = 0" using assms(3) by simp
  show "0 \<le> run \<Longrightarrow> cpu_count H = 1" using d(5) assms(2) by (simp add: cpu_count_add)
qed

lemma abs_arrive_idle:
  assumes "abs_inv n (add_mset evt H) R run fin" "etype evt = EVT_ARRIVE" "run < 0"
  shows "pre_inv n H (R @ [pid evt]) fin"
proof -
  note d = abs_invD [OF assms(1)]
  have "at_most_once (image_mset pid H + mset (R @ [pid evt]))" using d(1) by simp
  moreover have "int (size H) + int (length (R @ [pid evt])) + fin = n" using d(2) by simp
  moreover have "cpu_count H = 0" using d(4) [OF assms(3)] assms(2) by (simp add: cpu_count_add)
  ultimately show ?thesis using d(3) by (simp add: pre_inv_def)
qed

lemma abs_cpu_event_running:
  assumes "abs_inv n (add_mset evt H) R run fin" "etype evt \<noteq> EVT_ARRIVE"
  shows "0 \<le> run \<and> cpu_count H = 0"
proof (cases "run < 0")
  case True
  then show ?thesis using abs_invD(4) [OF assms(1)] assms(2) by (simp add: cpu_count_add)
next
  case False
  then show ?thesis using abs_invD(5) [OF assms(1)] assms(2) by (simp add: cpu_count_add)
qed

lemma abs_exit:
  assumes "abs_inv n (add_mset evt H) R run fin" "etype evt \<noteq> EVT_ARRIVE"
  shows "pre_inv n H R (fin + 1)"
proof -
  note d = abs_invD [OF assms(1)]
  have "at_most_once (image_mset pid H + mset R)" using d(1) by (simp add: at_most_once_add)
  moreover have "int (size H) + int (length R) + (fin + 1) = n" using d(2) by simp
  ultimately show ?thesis
    using d(3) abs_cpu_event_running [OF assms] by (simp add: pre_inv_def)
qed

lemma abs_io:
  assumes "abs_inv n (add_mset evt H) R run fin" "etype evt \<noteq> EVT_ARRIVE"
    and "etype a = EVT_ARRIVE" "pid a = pid evt"
  shows "pre_inv n (add_mset a H) R fin"
proof -
  note d = abs_invD [OF assms(1)]
  have "at_most_once (image_mset pid (add_mset a H) + mset R)" using d(1) assms(4) by simp
  moreover have "int (size (add_mset a H)) + int (length R) + fin = n" using d(2) by simp
  moreover have "cpu_count (add_mset a H) = 0"
    using abs_cpu_event_running [OF assms(1,2)] assms(3) by (simp add: cpu_count_add)
  ultimately show ?thesis using d(3) by (simp add: pre_inv_def)
qed

lemma abs_requeue:
  assumes "abs_inv n (add_mset evt H) R run fin" "etype evt \<noteq> EVT_ARRIVE"
  shows "pre_inv n H (R @ [pid evt]) fin"
proof -
  note d = abs_invD [OF assms(1)]
  have "at_most_once (image_mset pid H + mset (R @ [pid evt]))" using d(1) by simp
  moreover have "int (size H) + int (length (R @ [pid evt])) + fin = n" using d(2) by simp
  ultimately show ?thesis
    using d(3) abs_cpu_event_running [OF assms] by (simp add: pre_inv_def)
qed

lemma pre_inv_idle: "pre_inv n H [] fin \<Longrightarrow> run < 0 \<Longrightarrow> abs_inv n H [] run fin"
  by (simp add: abs_inv_def pre_inv_def)

lemma pre_inv_dispatch:
  assumes "pre_inv n H (r # rs) fin" "pid e = r" "etype e \<noteq> EVT_ARRIVE" "0 \<le> r"
  shows "abs_inv n (add_mset e H) rs r fin"
proof (rule abs_invI)
  have d: "at_most_once (image_mset pid H + mset (r # rs))"
    "int (size H) + int (length (r # rs)) + fin = n" "0 \<le> fin" "cpu_count H = 0"
    using assms(1) by (simp_all add: pre_inv_def)
  show "at_most_once (image_mset pid (add_mset e H) + mset rs)" using d(1) assms(2) by simp
  show "int (size (add_mset e H)) + int (length rs) + fin = n" using d(2) by simp
  show "0 \<le> fin" by (rule d(3))
  show "r < 0 \<Longrightarrow> rs = [] \<and> cpu_count (add_mset e H) = 0" using assms(4) by simp
  show "0 \<le> r \<Longrightarrow> cpu_count (add_mset e H) = 1" using d(4) assms(3) by (simp add: cpu_count_add)
qed

lemma pre_inv_bounds:
  "pre_inv n H R fin \<Longrightarrow> int (size H) + int (length R) \<le> n"
  by (simp add: pre_inv_def)

lemma abs_inv_bounds:
  "abs_inv n (add_mset evt H) R run fin \<Longrightarrow> int (size H) + int (length R) < n"
  by (simp add: abs_inv_def)

lemma struct_wf_vlog [simp]: "struct_wf (s\<lparr>vlog := v\<rparr>) = struct_wf s"
  by (simp add: struct_wf_def)

lemma sim_invD:
  assumes "sim_inv s"
  shows "struct_wf s"
    and "abs_inv (g_numProcs s) (heap_events (eventQ s)) (rq_list (readyQ s)) (running_pid s)
           (finished_count s)"
    and "stderr s = []"
  using assms by (simp_all add: sim_inv_def)

lemma heap_room:
  assumes wf: "struct_wf s"
    and b: "int (size (heap_events (eventQ s))) < g_numProcs s"
  shows "heap_size (eventQ s) < heap_capacity (eventQ s)"
proof -
  note d = struct_wfD [OF wf]
  have "size (heap_events (eventQ s)) = heap_size (eventQ s)"
    using d(3) by (rule heap_size_events)
  then show ?thesis using b d(1,4) by simp
qed

lemma rq_room:
  assumes wf: "struct_wf s"
    and b: "int (length (rq_list (readyQ s))) \<le> g_numProcs s"
  shows "rq_count (readyQ s) < rq_capacity (readyQ s)"
  using struct_wfD(1,6) [OF wf] b by (simp add: length_rq_list)

lemma dispatch_from_pre:
  assumes wf: "struct_wf s"
    and pre: "pre_inv (g_numProcs s) (heap_events (eventQ s)) (rq_list (readyQ s))
                (finished_count s)"
    and idle: "running_pid s < 0" and err: "stderr s = []"
  shows "sim_inv (schedule_next s now q)"
proof (cases "rq_list (readyQ s)")
  case Nil
  then have "rq_count (readyQ s) = 0" using length_rq_list [of "readyQ s"] by simp
  then have "schedule_next s now q = s" using idle by (simp add: schedule_next_idle)
  then show ?thesis
    using wf err pre_inv_idle [OF pre [unfolded Nil] idle] Nil by (simp add: sim_inv_def)
next
  case (Cons r rs)
  then have ne: "rq_list (readyQ s) \<noteq> []" by simp
  have "int (size (heap_events (eventQ s))) < g_numProcs s"
    using pre_inv_bounds [OF pre] Cons by simp
  then have room: "heap_size (eventQ s) < heap_capacity (eventQ s)"
    using heap_room [OF wf] by simp
  note de = schedule_next_dispatch_effect [OF wf idle ne room, of now q]
  have r: "0 \<le> r" using struct_wfD(8) [OF wf, of r] Cons by simp
  have "abs_inv (g_numProcs s)
          (add_mset (dispatch_event (dispatched_pcb (g_processes s ! nat r) now) r now q)
             (heap_events (eventQ s))) rs r (finished_count s)"
    using pre_inv_dispatch [OF pre [unfolded Cons] _ _ r] by (simp add: dispatch_event_def)
  then show ?thesis
    using de err Cons by (simp add: sim_inv_def)
qed

lemma sim_inv_step:
  assumes inv: "sim_inv s" and lc: "loop_cond s"
  shows "sim_inv (loop_body q s)"
proof -
  note i = sim_invD [OF inv]
  have ne: "\<not> eventHeap_empty (eventQ s)" using lc by (simp add: loop_cond_def)
  note ap = after_pop_effect [OF i(1) ne]
  define evt where "evt = popped s"
  define s1 where "s1 = after_pop s"
  define H1 where "H1 = heap_events (eventQ s1)"
  define R where "R = rq_list (readyQ s)"
  define n where "n = g_numProcs s"
  have H: "heap_events (eventQ s) = add_mset evt H1"
    using ap(2,3) by (simp add: H1_def s1_def evt_def)
  have a: "abs_inv n (add_mset evt H1) R (running_pid s) (finished_count s)"
    using i(2) by (simp add: H R_def n_def)
  have wf1: "struct_wf s1" using ap(1) by (simp add: s1_def)
  have f1: "readyQ s1 = readyQ s" "g_numProcs s1 = n" "running_pid s1 = running_pid s"
    "finished_count s1 = finished_count s" "stderr s1 = []" "heap_events (eventQ s1) = H1"
    using ap i(3) by (simp_all add: s1_def n_def H1_def)
  have p: "0 \<le> pid evt" "pid evt < n"
    using struct_wfD(7) [OF i(1), of evt] H by (simp_all add: n_def)
  have bnd: "int (size H1) + int (length R) < n" using a by (rule abs_inv_bounds)
  have room1: "heap_size (eventQ s1) < heap_capacity (eventQ s1)"
    using heap_room [OF wf1] bnd f1 by simp
  have rqroom1: "rq_count (readyQ s1) < rq_capacity (readyQ s1)"
    using rq_room [OF wf1] bnd f1 by (simp add: R_def)
  show ?thesis
  proof (cases "etype evt")
    case EVT_ARRIVE
    define s2 where "s2 = sim_enqueue s1 (pid evt) (current_time s1)"
    note ee = sim_enqueue_effect [OF wf1 rqroom1, of "pid evt" "current_time s1"]
    define s3 where
      "s3 = s2\<lparr>vlog := vlog s2 @ [V_arrival (current_time s1) (pcb_id (g_processes s2 ! nat (pid evt)))]\<rparr>"
    have wf3: "struct_wf s3" using ee(1) p f1 by (simp add: s3_def s2_def)
    have f3: "heap_events (eventQ s3) = H1" "rq_list (readyQ s3) = R @ [pid evt]"
      "g_numProcs s3 = n" "running_pid s3 = running_pid s"
      "finished_count s3 = finished_count s" "stderr s3 = []"
      using ee p f1 by (simp_all add: s3_def s2_def R_def)
    have body: "loop_body q s =
        (if running_pid s3 < 0 then schedule_next s3 (current_time s1) q else s3)"
      using EVT_ARRIVE
      by (simp add: loop_body_eq case_EVT_ARRIVE_def Let_def s3_def s2_def s1_def evt_def)
    show ?thesis
    proof (cases "running_pid s < 0")
      case True
      have "pre_inv n H1 (R @ [pid evt]) (finished_count s)"
        using abs_arrive_idle [OF a EVT_ARRIVE True] .
      then have "sim_inv (schedule_next s3 (current_time s1) q)"
        using dispatch_from_pre [OF wf3] f3 True by simp
      then show ?thesis using body True f3 by simp
    next
      case False
      then have "abs_inv n H1 (R @ [pid evt]) (running_pid s) (finished_count s)"
        using abs_arrive_busy [OF a EVT_ARRIVE] by simp
      then have "sim_inv s3" using wf3 f3 by (simp add: sim_inv_def)
      then show ?thesis using body False f3 by simp
    qed
  next
    case EVT_CPU_COMPLETE
    then have cpu: "etype evt \<noteq> EVT_ARRIVE" by simp
    define s2 where "s2 = cpu_release s1 (pid evt)"
    note re = cpu_release_effect [OF wf1, of "pid evt"]
    have wf2: "struct_wf s2" using re(1) p f1 by (simp add: s2_def)
    have f2: "heap_events (eventQ s2) = H1" "rq_list (readyQ s2) = R"
      "g_numProcs s2 = n" "running_pid s2 = - 1"
      "finished_count s2 = finished_count s" "stderr s2 = []" "current_time s2 = current_time s1"
      "eventQ s2 = eventQ s1"
      using re p f1 by (simp_all add: s2_def R_def)
    define s3 where "s3 = burst_done s2 (pid evt)"
    have body: "loop_body q s = schedule_next s3 (current_time s1) q"
      using EVT_CPU_COMPLETE
      by (simp add: loop_body_eq case_EVT_CPU_COMPLETE_def Let_def s3_def s2_def s1_def evt_def)
    have "struct_wf s3 \<and>
          pre_inv n (heap_events (eventQ s3)) (rq_list (readyQ s3)) (finished_count s3) \<and>
          g_numProcs s3 = n \<and> running_pid s3 = - 1 \<and> stderr s3 = []"
    proof (cases "num_bursts (g_processes s2 ! nat (pid evt))
                    \<le> current_burst (g_processes s2 ! nat (pid evt)) + 1")
      case True
      note be = burst_done_exit_effect [OF wf2 _ _ True]
      show ?thesis using be p f2 abs_exit [OF a cpu] by (simp add: s3_def)
    next
      case False
      then have more: "current_burst (g_processes s2 ! nat (pid evt)) + 1
                         < num_bursts (g_processes s2 ! nat (pid evt))" by simp
      have room2: "heap_size (eventQ s2) < heap_capacity (eventQ s2)"
        using room1 f2 by simp
      note be = burst_done_io_effect [OF wf2 _ _ more room2]
      show ?thesis using be p f2 abs_io [OF a cpu] by (simp add: s3_def)
    qed
    then have "sim_inv (schedule_next s3 (current_time s1) q)"
      using dispatch_from_pre [of s3] by simp
    then show ?thesis using body by simp
  next
    case EVT_CPU_TIMEOUT
    then have cpu: "etype evt \<noteq> EVT_ARRIVE" by simp
    define s2 where "s2 = cpu_release s1 (pid evt)"
    note re = cpu_release_effect [OF wf1, of "pid evt"]
    have wf2: "struct_wf s2" using re(1) p f1 by (simp add: s2_def)
    have f2: "heap_events (eventQ s2) = H1" "rq_list (readyQ s2) = R"
      "g_numProcs s2 = n" "running_pid s2 = - 1"
      "finished_count s2 = finished_count s" "stderr s2 = []" "current_time s2 = current_time s1"
      "eventQ s2 = eventQ s1" "readyQ s2 = readyQ s1"
      using re p f1 by (simp_all add: s2_def R_def)
    define s3 where
      "s3 = (if remaining_cpu (g_processes s2 ! nat (pid evt)) > 0
             then sim_enqueue
                    (s2\<lparr>vlog := vlog s2 @
                       [V_timeout (current_time s1) (pcb_id (g_processes s2 ! nat (pid evt)))]\<rparr>)
                    (pid evt) (current_time s1)
             else burst_done s2 (pid evt))"
    have body: "loop_body q s = schedule_next s3 (current_time s1) q"
      using EVT_CPU_TIMEOUT
      by (simp add: loop_body_eq case_EVT_CPU_TIMEOUT_def Let_def s3_def s2_def s1_def evt_def)
    have "struct_wf s3 \<and>
          pre_inv n (heap_events (eventQ s3)) (rq_list (readyQ s3)) (finished_count s3) \<and>
          g_numProcs s3 = n \<and> running_pid s3 = - 1 \<and> stderr s3 = []"
    proof (cases "remaining_cpu (g_processes s2 ! nat (pid evt)) > 0")
      case True
      let ?s = "s2\<lparr>vlog := vlog s2 @
                    [V_timeout (current_time s1) (pcb_id (g_processes s2 ! nat (pid evt)))]\<rparr>"
      have wfv: "struct_wf ?s" using wf2 by simp
      have rr: "rq_count (readyQ ?s) < rq_capacity (readyQ ?s)"
        using rqroom1 f2 by simp
      note ee = sim_enqueue_effect [OF wfv rr, of "pid evt" "current_time s1"]
      show ?thesis using ee p f2 abs_requeue [OF a cpu] True by (simp add: s3_def)
    next
      case rem: False
      show ?thesis
      proof (cases "num_bursts (g_processes s2 ! nat (pid evt))
                      \<le> current_burst (g_processes s2 ! nat (pid evt)) + 1")
        case True
        note be = burst_done_exit_effect [OF wf2 _ _ True]
        show ?thesis using be p f2 abs_exit [OF a cpu] rem by (simp add: s3_def)
      next
        case False
        then have more: "current_burst (g_processes s2 ! nat (pid evt)) + 1
                           < num_bursts (g_processes s2 ! nat (pid evt))" by simp
        have room2: "heap_size (eventQ s2) < heap_capacity (eventQ s2)"
          using room1 f2 by simp
        note be = burst_done_io_effect [OF wf2 _ _ more room2]
        show ?thesis using be p f2 abs_io [OF a cpu] rem by (simp add: s3_def)
      qed
    qed
    then have "sim_inv (schedule_next s3 (current_time s1) q)"
      using dispatch_from_pre [of s3] by simp
    then show ?thesis using body by simp
  qed
qed

lemma sim_push_effect:
  assumes wf: "struct_wf s" and room: "heap_size (eventQ s) < heap_capacity (eventQ s)"
    and p: "0 \<le> pid e" "pid e < g_numProcs s"
  shows "struct_wf (sim_push s e)"
    and "heap_events (eventQ (sim_push s e)) = add_mset e (heap_events (eventQ s))"
    and "readyQ (sim_push s e) = readyQ s"
    and "g_processes (sim_push s e) = g_processes s"
    and "g_numProcs (sim_push s e) = g_numProcs s"
    and "running_pid (sim_push s e) = running_pid s"
    and "finished_count (sim_push s e) = finished_count s"
    and "stderr (sim_push s e) = stderr s"
    and "current_time (sim_push s e) = current_time s"
proof -
  note d = struct_wfD [OF wf]
  note eq = sim_push_eq [OF room, of e]
  note pe = push_effect [OF d(3) room, of e]
  show ev: "heap_events (eventQ (sim_push s e)) = add_mset e (heap_events (eventQ s))"
    using pe(3) by (simp add: eq)
  have "\<And>x. x \<in># add_mset e (heap_events (eventQ s)) \<Longrightarrow> 0 \<le> pid x \<and> pid x < g_numProcs s"
    using d(7) p by auto
  then show "struct_wf (sim_push s e)"
    using d pe(2,4) ev by (simp add: struct_wf_def) (simp add: eq)
qed (simp_all add: sim_push_eq [OF room])

lemma sim_init_fold: "sim_init n ps = fold insert_arrival [0..<nat n] (init_vars n ps)"
  by (simp add: sim_init_def init_vars_def)

lemma init_capacity:
  "heap_capacity (eventHeap_init c) = c" "rq_capacity (RQ_init c) = c"
  by (simp_all add: eventHeap_init_def RQ_init_def)

lemma struct_wf_init_vars:
  "0 < n \<Longrightarrow> length ps = nat n \<Longrightarrow> struct_wf (init_vars n ps)"
  by (simp add: struct_wf_def init_vars_def heap_wf_init heap_events_init rq_wf_init
      rq_list_init init_capacity)

lemma fold_insert_arrival:
  assumes n: "0 < n" "length ps = nat n"
  shows "k \<le> nat n \<Longrightarrow>
    struct_wf (fold insert_arrival [0..<k] (init_vars n ps)) \<and>
    heap_events (eventQ (fold insert_arrival [0..<k] (init_vars n ps)))
      = mset (map (arrival_event ps) [0..<k]) \<and>
    readyQ (fold insert_arrival [0..<k] (init_vars n ps)) = RQ_init (nat (n + 10)) \<and>
    g_processes (fold insert_arrival [0..<k] (init_vars n ps)) = ps \<and>
    g_numProcs (fold insert_arrival [0..<k] (init_vars n ps)) = n \<and>
    running_pid (fold insert_arrival [0..<k] (init_vars n ps)) = - 1 \<and>
    finished_count (fold insert_arrival [0..<k] (init_vars n ps)) = 0 \<and>
    stderr (fold insert_arrival [0..<k] (init_vars n ps)) = [] \<and>
    current_time (fold insert_arrival [0..<k] (init_vars n ps)) = 0"
proof (induction k)
  case 0
  show ?case
    using struct_wf_init_vars [OF n]
    by (simp add: init_vars_def heap_events_init)
next
  case (Suc k)
  let ?s = "fold insert_arrival [0..<k] (init_vars n ps)"
  have ih: "struct_wf ?s" "heap_events (eventQ ?s) = mset (map (arrival_event ps) [0..<k])"
    "readyQ ?s = RQ_init (nat (n + 10))" "g_processes ?s = ps" "g_numProcs ?s = n"
    "running_pid ?s = - 1" "finished_count ?s = 0" "stderr ?s = []" "current_time ?s = 0"
    using Suc by simp_all
  have "size (heap_events (eventQ ?s)) = k" by (simp add: ih(2))
  then have "int (size (heap_events (eventQ ?s))) < g_numProcs ?s"
    using Suc.prems ih(5) by simp
  then have room: "heap_size (eventQ ?s) < heap_capacity (eventQ ?s)"
    using heap_room [OF ih(1)] by simp
  have step: "fold insert_arrival [0..<Suc k] (init_vars n ps) = sim_push ?s (arrival_event ps k)"
    by (simp add: insert_arrival_def arrival_event_def ih(4))
  have p: "0 \<le> pid (arrival_event ps k)" "pid (arrival_event ps k) < g_numProcs ?s"
    using Suc.prems ih(5) by (simp_all add: arrival_event_def)
  note pe = sim_push_effect [OF ih(1) room p]
  show ?case
    unfolding step using pe ih by simp
qed

lemma arrival_events_props:
  "at_most_once (image_mset pid (mset (map (arrival_event ps) [0..<k]))) \<and>
   cpu_count (mset (map (arrival_event ps) [0..<k])) = 0 \<and>
   (\<forall>e \<in># mset (map (arrival_event ps) [0..<k]). pid e < int k)"
proof (induction k)
  case 0
  show ?case by (simp add: at_most_once_def cpu_count_def)
next
  case (Suc k)
  have "int k \<notin># image_mset pid (mset (map (arrival_event ps) [0..<k]))"
    using Suc by auto
  then show ?case
    using Suc by (auto simp: at_most_once_add cpu_count_add arrival_event_def)
qed

lemma sim_inv_init:
  assumes n: "0 < n" "length ps = nat n"
  shows "sim_inv (sim_init n ps)"
proof -
  note f = fold_insert_arrival [OF n, of "nat n", simplified, folded sim_init_fold]
  note a = arrival_events_props [of ps "nat n"]
  have "abs_inv n (mset (map (arrival_event ps) [0..<nat n])) [] (- 1) 0"
    using a n by (intro abs_invI) simp_all
  then show ?thesis
    using f by (simp add: sim_inv_def rq_list_init)
qed

lemma reach_inv:
  assumes n: "0 < n" "length ps = nat n"
  shows "reach q n ps s \<Longrightarrow> sim_inv s"
proof (induction rule: reach.induct)
  case reach_init
  show ?case using n by (rule sim_inv_init)
next
  case (reach_step s)
  then show ?case by (simp add: sim_inv_step)
qed

lemma main_loop_reach_imp:
  assumes r: "main_loop q s = Some s'"
  shows "reach q n ps s \<longrightarrow> reach q n ps s' \<and> \<not> loop_cond s'"
proof (rule main_loop.raw_induct
    [where P = "\<lambda>q s s'. reach q n ps s \<longrightarrow> reach q n ps s' \<and> \<not> loop_cond s'", OF _ r])
  fix f :: "int \<Rightarrow> sim \<Rightarrow> sim option" and q s y
  assume IH: "\<And>q s y. f q s = Some y \<Longrightarrow> reach q n ps s \<longrightarrow> reach q n ps y \<and> \<not> loop_cond y"
    and eq: "(if loop_cond s then f q (loop_body q s) else Some s) = Some y"
  show "reach q n ps s \<longrightarrow> reach q n ps y \<and> \<not> loop_cond y"
  proof (cases "loop_cond s")
    case True
    then have "f q (loop_body q s) = Some y" using eq by simp
    then show ?thesis using IH True reach_step by blast
  next
    case False
    then show ?thesis using eq by simp
  qed
qed

lemma main_loop_reach:
  "main_loop q s = Some s' \<Longrightarrow> reach q n ps s \<Longrightarrow> reach q n ps s' \<and> \<not> loop_cond s'"
  using main_loop_reach_imp by blast

lemma read_procs_length: "read_procs k ts = Some ps \<Longrightarrow> length ps = k"
proof (induction k arbitrary: ts ps)
  case 0
  then show ?case by simp
next
  case (Suc k)
  show ?case
  proof (cases ts)
    case Nil
    then show ?thesis using Suc.prems by simp
  next
    case c1: (Cons p ts1)
    show ?thesis
    proof (cases ts1)
      case Nil
      then show ?thesis using Suc.prems c1 by simp
    next
      case c2: (Cons arrival ts2)
      then show ?thesis
        using Suc.prems Suc.IH c1 by (auto split: option.splits prod.splits)
    qed
  qed
qed

lemma read_input_length:
  "read_input_file file = Some (n, ps) \<Longrightarrow> 0 < n \<Longrightarrow> length ps = nat n"
  by (auto simp: read_input_file_def read_procs_length split: option.splits list.splits if_splits)

subsection \<open>Claims on the run\<close>

lemma read_one_proc: "read_input_file (Some [1, 1, 5, 2, - 1]) = Some (1, one_proc)"
  by code_simp

lemma reach_sim_inv:
  assumes "read_input_file file = Some (n, ps)" "0 < n" "reach q n ps s"
  shows "sim_inv s"
  using reach_inv [OF assms(2) read_input_length [OF assms(1,2)] assms(3)] .

lemma sim_inv_counts:
  assumes "sim_inv s"
  shows "g_numProcs s > 0"
    and "int (heap_size (eventQ s)) + int (rq_count (readyQ s)) + finished_count s = g_numProcs s"
    and "0 \<le> finished_count s"
    and "heap_capacity (eventQ s) = nat (g_numProcs s * 4)"
    and "rq_capacity (readyQ s) = nat (g_numProcs s + 10)"
proof -
  note i = sim_invD [OF assms]
  note d = struct_wfD [OF i(1)]
  note a = abs_invD [OF i(2)]
  show "g_numProcs s > 0" by (rule d(1))
  show "int (heap_size (eventQ s)) + int (rq_count (readyQ s)) + finished_count s = g_numProcs s"
    using a(2) heap_size_events [OF d(3)] by (simp add: length_rq_list)
  show "0 \<le> finished_count s" by (rule a(3))
  show "heap_capacity (eventQ s) = nat (g_numProcs s * 4)" by (rule d(4))
  show "rq_capacity (readyQ s) = nat (g_numProcs s + 10)" by (rule d(6))
qed

text \<open>
  Claim C10. At the head of the loop of every run on a well-formed input of \<open>n\<close>
  processes, no process has more than one entry in the event heap and the ready queue
  together; the heap holds at most \<open>n\<close> events and the ready queue at most \<open>n\<close>
  entries, within capacities \<open>4 * n\<close> and \<open>n + 10\<close>; nothing has been written to
  \<^verbatim>\<open>stderr\<close> (the overflow branches of \<^verbatim>\<open>eventHeap_push\<close> and \<^verbatim>\<open>RQ_enqueue\<close> were not
  taken), and a push or an enqueue in this state does not take them either.
\<close>

theorem no_queue_overflow:
  assumes "read_input_file file = Some (n, ps)" "0 < n" "reach q n ps s"
  shows "(\<forall>p. count (image_mset pid (heap_events (eventQ s))) p
                + count_list (rq_list (readyQ s)) p \<le> 1) \<and>
         int (heap_size (eventQ s)) \<le> g_numProcs s \<and>
         int (rq_count (readyQ s)) \<le> g_numProcs s \<and>
         heap_capacity (eventQ s) = nat (g_numProcs s * 4) \<and>
         rq_capacity (readyQ s) = nat (g_numProcs s + 10) \<and>
         stderr s = [] \<and>
         (\<forall>e. fst (eventHeap_push (g_processes s) (eventQ s) e) = []) \<and>
         (\<forall>p t. fst (RQ_enqueue (g_processes s) (readyQ s) p t) = [])"
proof -
  have inv: "sim_inv s" using reach_sim_inv [OF assms] .
  note i = sim_invD [OF inv]
  note c = sim_inv_counts [OF inv]
  note a = abs_invD [OF i(2)]
  have 1: "count (image_mset pid (heap_events (eventQ s))) p
             + count_list (rq_list (readyQ s)) p \<le> 1" for p
    using a(1) unfolding at_most_once_def by (simp add: count_mset [symmetric] del: count_mset)
  have 2: "int (heap_size (eventQ s)) \<le> g_numProcs s" "int (rq_count (readyQ s)) \<le> g_numProcs s"
    using c(2,3) by simp_all
  have 3: "fst (eventHeap_push (g_processes s) (eventQ s) e) = []" for e
    using 2 c(1,4) by (simp add: eventHeap_push_def)
  have 4: "fst (RQ_enqueue (g_processes s) (readyQ s) p t) = []" for p t
    using 2 c(1,5) by (simp add: RQ_enqueue_def Let_def)
  show ?thesis using 1 2 3 4 c(4,5) i(3) by blast
qed

theorem no_queue_overflow_witness:
  "int (heap_size (eventQ (loop_body 5 (sim_init 1 one_proc)))) \<le> 1 \<and>
   heap_capacity (eventQ (loop_body 5 (sim_init 1 one_proc))) = 4 \<and>
   rq_capacity (readyQ (loop_body 5 (sim_init 1 one_proc))) = 11 \<and>
   stderr (loop_body 5 (sim_init 1 one_proc)) = []"
proof -
  have lc: "loop_cond (sim_init 1 one_proc)" by code_simp
  have r: "reach 5 1 one_proc (loop_body 5 (sim_init 1 one_proc))"
    by (rule reach_step [OF reach_init lc])
  have g: "g_numProcs (loop_body 5 (sim_init 1 one_proc)) = 1" by code_simp
  from no_queue_overflow [OF read_one_proc _ r] g show ?thesis by simp
qed

text \<open>
  Claim C9. In every state at the head of the loop of a run on a well-formed input, the
  finished count equals the process count exactly when the event heap is empty; the
  body runs (and pops) only with a non-empty heap; when the loop exits both conditions
  hold; and \<^verbatim>\<open>eventHeap_pop\<close> on an empty heap returns the sentinel event with time
  \<^verbatim>\<open>INT_MAX\<close>, kind ARRIVAL and process index \<open>-1\<close>, leaving the heap as it is.
\<close>

theorem termination_conditions_agree:
  assumes "read_input_file file = Some (n, ps)" "0 < n" "reach q n ps s"
  shows "(finished_count s = g_numProcs s \<longleftrightarrow> eventHeap_empty (eventQ s)) \<and>
         (loop_cond s \<longrightarrow> \<not> eventHeap_empty (eventQ s)) \<and>
         (\<forall>s'. main_loop q s = Some s' \<longrightarrow>
            finished_count s' = g_numProcs s' \<and> eventHeap_empty (eventQ s')) \<and>
         (\<forall>mh. eventHeap_empty mh \<longrightarrow>
            eventHeap_pop (g_processes s) mh =
              (\<lparr>time = INT_MAX, etype = EVT_ARRIVE, pid = - 1\<rparr>, mh))"
proof -
  have agree: "finished_count t = g_numProcs t \<longleftrightarrow> eventHeap_empty (eventQ t)"
    if rt: "reach q n ps t" for t
  proof -
    have inv: "sim_inv t" using reach_sim_inv [OF assms(1,2) rt] .
    note i = sim_invD [OF inv]
    note d = struct_wfD [OF i(1)]
    note c = sim_inv_counts [OF inv]
    note a = abs_invD [OF i(2)]
    show ?thesis
    proof
      assume "finished_count t = g_numProcs t"
      then show "eventHeap_empty (eventQ t)" using c(2) by (simp add: eventHeap_empty_def)
    next
      assume e: "eventHeap_empty (eventQ t)"
      then have "size (heap_events (eventQ t)) = 0"
        using heap_size_events [OF d(3)] by (simp add: eventHeap_empty_def)
      then have h: "heap_events (eventQ t) = {#}" by simp
      then have "cpu_count (heap_events (eventQ t)) = 0" by (simp add: cpu_count_def)
      then have "running_pid t < 0" using a(5) by fastforce
      then have "rq_list (readyQ t) = []" using a(4) by simp
      then show "finished_count t = g_numProcs t" using a(2) h by simp
    qed
  qed
  have 1: "finished_count s = g_numProcs s \<longleftrightarrow> eventHeap_empty (eventQ s)"
    using agree [OF assms(3)] .
  have 2: "loop_cond s \<longrightarrow> \<not> eventHeap_empty (eventQ s)"
    by (simp add: loop_cond_def)
  have 3: "finished_count s' = g_numProcs s' \<and> eventHeap_empty (eventQ s')"
    if m: "main_loop q s = Some s'" for s'
  proof -
    have r: "reach q n ps s'" "\<not> loop_cond s'"
      using main_loop_reach [OF m assms(3)] by simp_all
    have inv: "sim_inv s'" using reach_sim_inv [OF assms(1,2) r(1)] .
    note c = sim_inv_counts [OF inv]
    have "finished_count s' \<ge> g_numProcs s' \<or> eventHeap_empty (eventQ s')"
      using r(2) by (auto simp: loop_cond_def)
    then show ?thesis using agree [OF r(1)] c(2) by auto
  qed
  have 4: "eventHeap_pop (g_processes s) mh = (\<lparr>time = INT_MAX, etype = EVT_ARRIVE, pid = - 1\<rparr>, mh)"
    if "eventHeap_empty mh" for mh
    using that by (simp add: eventHeap_pop_def eventHeap_empty_def)
  show ?thesis using 1 2 3 4 by blast
qed

theorem termination_conditions_agree_witness:
  "finished_count (loop_body 5 (loop_body 5 (sim_init 1 one_proc))) = 1 \<and>
   eventHeap_empty (eventQ (loop_body 5 (loop_body 5 (sim_init 1 one_proc)))) \<and>
   \<not> loop_cond (loop_body 5 (loop_body 5 (sim_init 1 one_proc)))"
proof -
  let ?s1 = "loop_body 5 (sim_init 1 one_proc)"
  let ?s2 = "loop_body 5 ?s1"
  have lc0: "loop_cond (sim_init 1 one_proc)" by code_simp
  have lc1: "loop_cond ?s1" by code_simp
  have r: "reach 5 1 one_proc ?s2"
    by (rule reach_step [OF reach_step [OF reach_init lc0] lc1])
  have f: "finished_count ?s2 = 1" "g_numProcs ?s2 = 1" by code_simp+
  from termination_conditions_agree [OF read_one_proc _ r] f show ?thesis
    by (simp add: loop_cond_def)
qed



subsection \<open>Concrete runs\<close>

lemma fold_max_ge:
  "e \<le> fold (\<lambda>i e. if f i > e then f i else e) xs (e::int)"
proof (induction xs arbitrary: e)
  case Nil
  show ?case by simp
next
  case (Cons x xs)
  have "(if f x > e then f x else e) \<le> fold (\<lambda>i e. if f i > e then f i else e) xs (if f x > e then f x else e)"
    by (rule Cons.IH)
  then show ?case by (simp split: if_splits)
qed

lemma simulation_end_nonneg: "0 \<le> simulation_end_of s"
  unfolding simulation_end_of_def by (rule fold_max_ge)

lemma agg_of_run:
  assumes "agg_of (run_scheduler q file) = Some a"
  shows "\<exists>n e w i. 0 \<le> e \<and> a = print_aggregate_metrics n e w i"
proof (cases "read_input_file file")
  case None
  then show ?thesis using assms by (simp add: run_scheduler_def)
next
  case rd: (Some np)
  obtain n ps where np: "np = (n, ps)" by (cases np)
  show ?thesis
  proof (cases "main_loop q (sim_init n ps)")
    case None
    then show ?thesis using assms rd np by (simp add: run_scheduler_def split: if_splits)
  next
    case (Some s)
    then have "a = print_aggregate_metrics (g_numProcs s) (simulation_end_of s)
                 (total_wait_of s) (cpu_idle_time s)"
      using assms rd np by (simp add: run_scheduler_def split: if_splits)
    then show ?thesis using simulation_end_nonneg by blast
  qed
qed

text \<open>
  Claim C7. One process that arrives at time 5 with a single CPU burst of 2 and no I/O:
  under each quantum that \<^verbatim>\<open>main\<close> uses, the run reports idle time 5, makespan 7 and
  utilization \<open>100 * 2 / 7\<close>. For every run that ends, the makespan is not negative and
  the reported utilization is \<open>100 * (makespan - idle_time) / makespan\<close>, and 0 when the
  makespan is 0.
\<close>

theorem idle_scenario_and_utilization:
  "agg_of (run_scheduler 1000000000 (Some [1, 1, 5, 2, - 1])) =
     Some \<lparr>avg_wait = 0, total_tat = 7, idle_time = 5, utilization = 100 * 2 / 7\<rparr> \<and>
   agg_of (run_scheduler 10 (Some [1, 1, 5, 2, - 1])) =
     Some \<lparr>avg_wait = 0, total_tat = 7, idle_time = 5, utilization = 100 * 2 / 7\<rparr> \<and>
   agg_of (run_scheduler 5 (Some [1, 1, 5, 2, - 1])) =
     Some \<lparr>avg_wait = 0, total_tat = 7, idle_time = 5, utilization = 100 * 2 / 7\<rparr> \<and>
   (\<forall>q file a. agg_of (run_scheduler q file) = Some a \<longrightarrow>
      0 \<le> total_tat a \<and>
      utilization a =
        (if total_tat a = 0 then 0
         else 100 * (real_of_int (total_tat a - idle_time a) / real_of_int (total_tat a))))"
proof -
  have 1: "agg_of (run_scheduler 1000000000 (Some [1, 1, 5, 2, - 1])) =
     Some \<lparr>avg_wait = 0, total_tat = 7, idle_time = 5, utilization = 100 * 2 / 7\<rparr>"
    by code_simp
  have 2: "agg_of (run_scheduler 10 (Some [1, 1, 5, 2, - 1])) =
     Some \<lparr>avg_wait = 0, total_tat = 7, idle_time = 5, utilization = 100 * 2 / 7\<rparr>"
    by code_simp
  have 3: "agg_of (run_scheduler 5 (Some [1, 1, 5, 2, - 1])) =
     Some \<lparr>avg_wait = 0, total_tat = 7, idle_time = 5, utilization = 100 * 2 / 7\<rparr>"
    by code_simp
  have 4: "0 \<le> total_tat a \<and>
      utilization a =
        (if total_tat a = 0 then 0
         else 100 * (real_of_int (total_tat a - idle_time a) / real_of_int (total_tat a)))"
    if "agg_of (run_scheduler q f) = Some a" for q f a
  proof -
    from agg_of_run [OF that] obtain n e w i where
      "0 \<le> e" "a = print_aggregate_metrics n e w i" by blast
    then show ?thesis by (simp add: print_aggregate_metrics_def Let_def)
  qed
  show ?thesis using 1 2 3 4 by blast
qed

theorem idle_scenario_and_utilization_witness:
  "agg_of (run_scheduler 5 (Some [1, 1, 5, 2, - 1])) =
     Some \<lparr>avg_wait = 0, total_tat = 7, idle_time = 5, utilization = 200 / 7\<rparr> \<and>
   utilization \<lparr>avg_wait = 0, total_tat = 7, idle_time = 5, utilization = 200 / 7\<rparr>
     = 100 * (real_of_int (7 - 5) / real_of_int 7)"
proof -
  have h: "agg_of (run_scheduler 5 (Some [1, 1, 5, 2, - 1])) =
     Some \<lparr>avg_wait = 0, total_tat = 7, idle_time = 5, utilization = 200 / 7\<rparr>"
    by code_simp
  from idle_scenario_and_utilization have
    "\<forall>q file a. agg_of (run_scheduler q file) = Some a \<longrightarrow>
      0 \<le> total_tat a \<and>
      utilization a =
        (if total_tat a = 0 then 0
         else 100 * (real_of_int (total_tat a - idle_time a) / real_of_int (total_tat a)))"
    by blast
  from this [rule_format, OF h] h show ?thesis by simp
qed

lemma rr_timeline:
  "timeline (run_scheduler 3 (Some [2, 1, 0, 10, - 1, 2, 1, 4, - 1])) =
     Some ([(1, 0, 3), (2, 3, 6), (1, 6, 9), (2, 9, 10), (1, 10, 13), (1, 13, 14)],
           [(2, 10), (1, 14)])"
  by code_simp

text \<open>
  Claim C6, as stated: with P1 (arrival 0, burst 10), P2 (arrival 1, burst 4) and quantum 3
  the slices would be P1 \<open>[0,3)\<close>, P2 \<open>[3,6)\<close>, P1 \<open>[6,9)\<close>, P2 \<open>[9,10)\<close>, P1 \<open>[10,12)\<close>,
  with P2 leaving at 10 and P1 at 12. The run differs: after 9 P1 still needs 4 units.
\<close>

theorem round_robin_interleaving_counterexample:
  "timeline (run_scheduler 3 (Some [2, 1, 0, 10, - 1, 2, 1, 4, - 1])) \<noteq>
     Some ([(1, 0, 3), (2, 3, 6), (1, 6, 9), (2, 9, 10), (1, 10, 12)], [(2, 10), (1, 12)])"
  by (simp add: rr_timeline)

text \<open>
  Claim C6, amended: the slices are P1 \<open>[0,3)\<close>, P2 \<open>[3,6)\<close>, P1 \<open>[6,9)\<close>, P2 \<open>[9,10)\<close>
  (P2 leaves at 10), P1 \<open>[10,13)\<close> (preempted once more) and P1 \<open>[13,14)\<close> (P1 leaves at
  14).
\<close>

theorem round_robin_interleaving:
  "timeline (run_scheduler 3 (Some [2, 1, 0, 10, - 1, 2, 1, 4, - 1])) =
     Some ([(1, 0, 3), (2, 3, 6), (1, 6, 9), (2, 9, 10), (1, 10, 13), (1, 13, 14)],
           [(2, 10), (1, 14)])"
  by (rule rr_timeline)

theorem pop_returns_minimum_witness:
  "fst (eventHeap_pop two_procs
      (snd (eventHeap_push two_procs
         (snd (eventHeap_push two_procs (eventHeap_init 8)
            \<lparr>time = 5, etype = EVT_ARRIVE, pid = 0\<rparr>))
         \<lparr>time = 3, etype = EVT_CPU_TIMEOUT, pid = 1\<rparr>)))
   = \<lparr>time = 3, etype = EVT_CPU_TIMEOUT, pid = 1\<rparr>"
proof -
  let ?e1 = "\<lparr>time = 5, etype = EVT_ARRIVE, pid = 0\<rparr>"
  let ?e2 = "\<lparr>time = 3, etype = EVT_CPU_TIMEOUT, pid = 1\<rparr>"
  let ?h1 = "snd (eventHeap_push two_procs (eventHeap_init 8) ?e1)"
  let ?h2 = "snd (eventHeap_push two_procs ?h1 ?e2)"
  have t1: "heap_trace two_procs 8 ?h1 {#?e1#}"
    by (rule trace_push [OF trace_init]) (simp_all add: eventHeap_init_def two_procs_def)
  have s1: "heap_size ?h1 < heap_capacity ?h1"
    by (simp add: eventHeap_push_def eventHeap_init_def)
  have t2: "heap_trace two_procs 8 ?h2 {#?e2, ?e1#}"
    by (rule trace_push [OF t1 s1]) (simp_all add: two_procs_def)
  have ne: "\<not> eventHeap_empty ?h2"
    by (simp add: eventHeap_empty_def eventHeap_push_def eventHeap_init_def)
  from pop_returns_minimum [OF t2] ne
  have "fst (eventHeap_pop two_procs ?h2) \<in># {#?e2, ?e1#}"
    and "\<not> event_before two_procs ?e2 (fst (eventHeap_pop two_procs ?h2))"
    by simp_all
  then show ?thesis by (auto simp: event_before_def)
qed

end
